theory Spec2Isabelle
  imports Main "HOL-Library.Sublist"
begin

section \<open>The crawl frontier (wikipedia\_scraper.py)\<close>

subsection \<open>Data\<close>

text \<open>
  URLs and hrefs are strings compared by equality. Document text is a Python \<open>str\<close>: a
  sequence of Unicode code points, kept as natural numbers so that letters outside ASCII
  can be written down.
\<close>

type_synonym url = string
type_synonym ustring = "nat list"

text \<open>The exceptions that occur in the two modules, as values.\<close>

datatype exn =
    StopIteration
  | AttributeError
  | ValueError
  | ConnectionError
  | ChunkedEncodingError
  | TooManyRedirects
  | EOFError
  | FileNotFoundError
  | UnpicklingError
  | UnicodeEncodeError

text \<open>
  A fetched response is known to the code only through what BeautifulSoup finds in its
  content: the anchors below the element with id \<open>bodyContent\<close> (each with its
  \<open>href\<close> attribute, if it has one), the text of the element with id
  \<open>firstHeading\<close>, and the text of the element with id \<open>mw-content-text\<close>.
  \<open>soup.find\<close> returns \<open>None\<close> for an element that is not there.
\<close>

record response =
  bodyContent :: "string option list option"
  firstHeading :: "ustring option"
  mw_content_text :: "ustring option"

text \<open>The constructor's arguments.\<close>

record config =
  initial_url_arg :: "url option"
  language :: string
  num_download_workers :: nat
  log_dir :: "string option"

definition BASE_WIKIPEDIA_URL :: "string \<Rightarrow> url" where
  "BASE_WIKIPEDIA_URL lang = ''https://'' @ lang @ ''.wikipedia.org''"

definition WIKI_PAGE_TAG :: string where
  "WIKI_PAGE_TAG = ''/wiki/''"

definition DOWNLOADED_RESPONSES_TO_BUFFER :: nat where
  "DOWNLOADED_RESPONSES_TO_BUFFER = 100"

definition PROGRESS_FILES :: "string list" where
  "PROGRESS_FILES = [''progress1'', ''progress2'']"

definition wikipedia_url :: "config \<Rightarrow> url" where
  "wikipedia_url cfg = BASE_WIKIPEDIA_URL (language cfg)"

definition initial_url :: "config \<Rightarrow> url" where
  "initial_url cfg = (case initial_url_arg cfg of Some u \<Rightarrow> u | None \<Rightarrow> wikipedia_url cfg)"

text \<open>
  A download worker process is, at any moment, before its locked check (\<open>Idle\<close>),
  inside \<open>requests.get\<close> for a URL it popped (\<open>Downloading\<close>), past the
  \<open>try\<close> block and before the locked \<open>remove\<close> (\<open>Finishing\<close>), or
  gone: killed, or ended by an exception nobody caught (\<open>Dead\<close>).
\<close>

datatype job = Idle | Downloading url | Finishing url | Dead

datatype log = Error_getting url | Progress_loaded nat nat

text \<open>
  The shared collections, the worker processes, what was printed, and the response that
  \<open>__next__\<close> holds between its two locked sections (\<open>soup\<close>). The manager
  dictionary keeps its keys in insertion order, so it is an association list with each key
  once.
\<close>

record scraper =
  links_to_visit :: "url list"
  visited_links :: "url list"
  currently_downloading :: "url list"
  downloaded_responses :: "(url \<times> response) list"
  page_download_jobs :: "job list"
  soup :: "response option"
  console :: "log list"

fun dict_setitem :: "'k \<Rightarrow> 'v \<Rightarrow> ('k \<times> 'v) list \<Rightarrow> ('k \<times> 'v) list" where
  "dict_setitem k v [] = [(k, v)]"
| "dict_setitem k v ((k', v') # d) =
     (if k' = k then (k, v) # d else (k', v') # dict_setitem k v d)"

fun dict_delitem :: "'k \<Rightarrow> ('k \<times> 'v) list \<Rightarrow> ('k \<times> 'v) list" where
  "dict_delitem k [] = []"
| "dict_delitem k ((k', v') # d) = (if k' = k then d else (k', v') # dict_delitem k d)"

definition dict_keys :: "('k \<times> 'v) list \<Rightarrow> 'k list" where
  "dict_keys d = map fst d"

subsection \<open>Checkpoint files\<close>

text \<open>
  The pickled dictionary of \<open>progress_log_worker\<close>. Timestamps come from
  \<open>time.time()\<close>; the code only compares them, so any linear order stands for them.
  A file is absent (\<open>open\<close> raises \<open>FileNotFoundError\<close>), or present with
  content that makes \<open>pickle.load\<close> raise (\<open>EOFError\<close> for an empty file,
  \<open>UnpicklingError\<close> for one cut inside a record), or present with a whole pickle.
\<close>

record 't progress =
  timestamp :: 't
  saved_links_to_visit :: "url list"
  saved_visited_links :: "url list"

datatype 't slot = Absent | Damaged exn | Pickled "'t progress"

type_synonym 't files = "string \<Rightarrow> 't slot"

definition path_join :: "string \<Rightarrow> string \<Rightarrow> string" where
  "path_join d n = (if d = [] then n else if last d = CHR ''/'' then d @ n else d @ ''/'' @ n)"

definition read_pickle :: "'t files \<Rightarrow> string \<Rightarrow> exn + 't progress" where
  "read_pickle fs path =
     (case fs path of
        Absent \<Rightarrow> Inl FileNotFoundError
      | Damaged e \<Rightarrow> Inl e
      | Pickled p \<Rightarrow> Inr p)"

text \<open>The loop over the progress files: two exceptions are passed over, any other leaves
  the function.\<close>

fun load_all :: "'t files \<Rightarrow> string list \<Rightarrow> 't progress list \<Rightarrow> exn + 't progress list" where
  "load_all fs [] progresses = Inr progresses"
| "load_all fs (progress_file # rest) progresses =
     (case read_pickle fs progress_file of
        Inr p \<Rightarrow> load_all fs rest (progresses @ [p])
      | Inl e \<Rightarrow>
          if e = EOFError then load_all fs rest progresses
          else if e = FileNotFoundError then load_all fs rest progresses
          else Inl e)"

text \<open>\<open>sorted(xs, key=k, reverse=True)\<close>: descending, and stable (elements with equal
  keys keep their order).\<close>

definition sorted_reverse :: "('a \<Rightarrow> 'k::linorder) \<Rightarrow> 'a list \<Rightarrow> 'a list" where
  "sorted_reverse k xs = rev (sort_key k (rev xs))"

definition load_progress_file ::
  "config \<Rightarrow> ('t::linorder) files \<Rightarrow> scraper \<Rightarrow> exn + (bool \<times> scraper)" where
  "load_progress_file cfg fs s =
     (case log_dir cfg of
        None \<Rightarrow> Inr (False, s)
      | Some d \<Rightarrow>
          (case load_all fs (map (path_join d) PROGRESS_FILES) [] of
             Inl e \<Rightarrow> Inl e
           | Inr progresses \<Rightarrow>
               if length progresses = 0 then Inr (False, s)
               else
                 let newest_progress = hd (sorted_reverse timestamp progresses);
                     s1 = s\<lparr>links_to_visit := saved_links_to_visit newest_progress,
                            visited_links := saved_visited_links newest_progress\<rparr>
                 in Inr (True,
                      s1\<lparr>console := console s1 @
                        [Progress_loaded (length (links_to_visit s1))
                           (length (visited_links s1))]\<rparr>)))"

text \<open>One round of \<open>progress_log_worker\<close>'s loop: the file to write, the next index,
  the copy taken under the lock, the write at time \<open>now\<close>.\<close>

definition progress_log_worker ::
  "string \<Rightarrow> 't \<Rightarrow> scraper \<Rightarrow> nat \<times> 't files \<Rightarrow> nat \<times> 't files" where
  "progress_log_worker dir now s st =
     (case st of (next_progress_file_id, fs) \<Rightarrow>
        let progress_files = map (path_join dir) PROGRESS_FILES;
            progress_file = progress_files ! next_progress_file_id;
            next_id = (next_progress_file_id + 1) mod length progress_files;
            copy_links_to_visit = links_to_visit s @ currently_downloading s;
            copy_visited_links = visited_links s
        in (next_id,
            fs(progress_file := Pickled \<lparr>timestamp = now,
                 saved_links_to_visit = copy_links_to_visit,
                 saved_visited_links = copy_visited_links\<rparr>)))"

subsection \<open>The iterator\<close>

definition kill_jobs :: "scraper \<Rightarrow> scraper" where
  "kill_jobs s = s\<lparr>page_download_jobs := map (\<lambda>p. Dead) (page_download_jobs s)\<rparr>"

text \<open>\<open>__iter__\<close>: kill, clear, load or seed, spawn.\<close>

definition iter :: "config \<Rightarrow> ('t::linorder) files \<Rightarrow> scraper \<Rightarrow> exn + scraper" where
  "iter cfg fs s =
     (let s1 = (kill_jobs s)\<lparr>page_download_jobs := [], links_to_visit := [],
                 visited_links := [], currently_downloading := [],
                 downloaded_responses := [], soup := None\<rparr>
      in case (if log_dir cfg = None then Inr (False, s1) else load_progress_file cfg fs s1) of
           Inl e \<Rightarrow> Inl e
         | Inr (loaded, s2) \<Rightarrow>
             let s3 = (if \<not> loaded
                       then s2\<lparr>links_to_visit := links_to_visit s2 @ [initial_url cfg]\<rparr>
                       else s2)
             in Inr (s3\<lparr>page_download_jobs := replicate (num_download_workers cfg) Idle\<rparr>))"

text \<open>The locked head of \<open>__next__\<close>.\<close>

datatype locked = Stop | Nothing | Popped response

definition next_locked :: "scraper \<Rightarrow> locked \<times> scraper" where
  "next_locked s =
     (if length (links_to_visit s) = 0 \<and> length (currently_downloading s) = 0
         \<and> length (downloaded_responses s) = 0
      then (Stop, kill_jobs s)
      else
        (case downloaded_responses s of
           [] \<Rightarrow> (Nothing, s)
         | (url, response) # d \<Rightarrow>
             (Popped response,
              s\<lparr>downloaded_responses := dict_delitem url (downloaded_responses s)\<rparr>)))"

definition valid_wiki_page_links :: "config \<Rightarrow> string option list \<Rightarrow> url list" where
  "valid_wiki_page_links cfg anchors =
     List.map_filter
       (\<lambda>link. case link of
           None \<Rightarrow> None
         | Some href \<Rightarrow>
             if prefix WIKI_PAGE_TAG href \<and> CHR '':'' \<notin> set href
             then Some (wikipedia_url cfg @ href) else None)
       anchors"

definition parse_links :: "config \<Rightarrow> response \<Rightarrow> scraper \<Rightarrow> exn + scraper" where
  "parse_links cfg sp s =
     (case bodyContent sp of
        None \<Rightarrow> Inl AttributeError
      | Some anchors \<Rightarrow>
          Inr (s\<lparr>links_to_visit := links_to_visit s @
                 filter (\<lambda>link. link \<notin> set (visited_links s)
                           \<and> link \<notin> set (currently_downloading s)
                           \<and> link \<notin> set (dict_keys (downloaded_responses s)))
                   (valid_wiki_page_links cfg anchors)\<rparr>))"

text \<open>What \<open>__next__\<close> hands back: \<open>(None, None, None)\<close>, or the response with its
  title (the soup is the response's content, parsed).\<close>

datatype page = NotReady | Ready response ustring

definition "next" :: "config \<Rightarrow> scraper \<Rightarrow> (exn + page) \<times> scraper" where
  "next cfg s =
     (case next_locked s of
        (Stop, s') \<Rightarrow> (Inl StopIteration, s')
      | (Nothing, s') \<Rightarrow> (Inr NotReady, s')
      | (Popped r, s') \<Rightarrow>
          (case parse_links cfg r s' of
             Inl e \<Rightarrow> (Inl e, s')
           | Inr s'' \<Rightarrow>
               (case firstHeading r of
                  None \<Rightarrow> (Inl AttributeError, s'')
                | Some title \<Rightarrow> (Inr (Ready r title), s''))))"

subsection \<open>The download workers and the interleaving\<close>

text \<open>
  A worker moves in three steps: the locked check and pop (\<open>Poll\<close>), the return of
  \<open>requests.get\<close> with a response or an exception (\<open>Get\<close>), and the locked
  \<open>remove\<close> (\<open>Cleanup\<close>).
\<close>

datatype action = Poll | Get "exn + response" | Cleanup

definition page_download_worker :: "nat \<Rightarrow> action \<Rightarrow> scraper \<Rightarrow> scraper" where
  "page_download_worker w a s =
     (case (page_download_jobs s ! w, a) of
        (Idle, Poll) \<Rightarrow>
          if length (links_to_visit s) > 0
             \<and> length (downloaded_responses s) < DOWNLOADED_RESPONSES_TO_BUFFER
          then
            let url = last (links_to_visit s)
            in s\<lparr>links_to_visit := butlast (links_to_visit s),
                 currently_downloading := currently_downloading s @ [url],
                 visited_links := visited_links s @ [url],
                 page_download_jobs := (page_download_jobs s)[w := Downloading url]\<rparr>
          else s
      | (Downloading url, Get (Inr r)) \<Rightarrow>
          s\<lparr>downloaded_responses := dict_setitem url r (downloaded_responses s),
            page_download_jobs := (page_download_jobs s)[w := Finishing url]\<rparr>
      | (Downloading url, Get (Inl e)) \<Rightarrow>
          if e = ConnectionError
          then s\<lparr>console := console s @ [Error_getting url],
                 page_download_jobs := (page_download_jobs s)[w := Finishing url]\<rparr>
          else s\<lparr>page_download_jobs := (page_download_jobs s)[w := Dead]\<rparr>
      | (Finishing url, Cleanup) \<Rightarrow>
          if url \<in> set (currently_downloading s)
          then s\<lparr>currently_downloading := remove1 url (currently_downloading s),
                 page_download_jobs := (page_download_jobs s)[w := Idle]\<rparr>
          else s\<lparr>page_download_jobs := (page_download_jobs s)[w := Dead]\<rparr>
      | _ \<Rightarrow> s)"

text \<open>
  The processes interleave at these steps. The consumer's \<open>__next__\<close> is two of them:
  its locked head, and the locked tail of \<open>parse_links\<close>.
\<close>

datatype event = Worker nat action | Next_locked | Parse_links

definition step :: "config \<Rightarrow> scraper \<Rightarrow> event \<Rightarrow> scraper" where
  "step cfg s ev =
     (case ev of
        Worker w a \<Rightarrow>
          if w < length (page_download_jobs s) then page_download_worker w a s else s
      | Next_locked \<Rightarrow>
          (case soup s of
             Some r \<Rightarrow> s
           | None \<Rightarrow>
               (case next_locked s of
                  (Popped r, s') \<Rightarrow> s'\<lparr>soup := Some r\<rparr>
                | (other, s') \<Rightarrow> s'))
      | Parse_links \<Rightarrow>
          (case soup s of
             None \<Rightarrow> s
           | Some r \<Rightarrow>
               (case parse_links cfg r s of
                  Inl e \<Rightarrow> s\<lparr>soup := None\<rparr>
                | Inr s' \<Rightarrow> s'\<lparr>soup := None\<rparr>)))"

definition run :: "config \<Rightarrow> scraper \<Rightarrow> event list \<Rightarrow> scraper" where
  "run cfg s evs = foldl (step cfg) s evs"

section \<open>The sentence finder (sentence\_finder.py)\<close>

subsection \<open>Regular expressions\<close>

text \<open>
  The language patterns are built from literal characters, alternatives, sequences and
  \<open>.*\<close>. They are matched with \<open>re.I\<close>: a lowercase pattern letter also matches its
  uppercase form, and the few other code points that Python folds onto it (for the letters
  of the patterns: U+017F for \<open>s\<close>, U+212A for \<open>k\<close>, U+1C84 and U+1C85 for Cyrillic
  \<open>te\<close>, U+1C81 for Cyrillic \<open>de\<close>).
\<close>

datatype regex = Chr nat | Dot_star | Alt regex regex | Seq regex regex | Eps

definition ignorecase_eq :: "nat \<Rightarrow> nat \<Rightarrow> bool" where
  "ignorecase_eq p c \<longleftrightarrow>
     c = p
     \<or> (97 \<le> p \<and> p \<le> 122 \<and> c + 32 = p)
     \<or> (p = 115 \<and> c = 383)
     \<or> (p = 107 \<and> c = 8490)
     \<or> (1072 \<le> p \<and> p \<le> 1103 \<and> c + 32 = p)
     \<or> (1104 \<le> p \<and> p \<le> 1119 \<and> c + 80 = p)
     \<or> (p = 1090 \<and> (c = 7300 \<or> c = 7301))
     \<or> (p = 1076 \<and> c = 7297)"

text \<open>Matching at the start of the text, with the rest of the pattern as a continuation;
  \<open>.\<close> does not match a newline.\<close>

fun matches :: "regex \<Rightarrow> (ustring \<Rightarrow> bool) \<Rightarrow> ustring \<Rightarrow> bool" where
  "matches (Chr p) k [] = False"
| "matches (Chr p) k (c # cs) = (ignorecase_eq p c \<and> k cs)"
| "matches Dot_star k [] = k []"
| "matches Dot_star k (c # cs) = (k (c # cs) \<or> (c \<noteq> 10 \<and> matches Dot_star k cs))"
| "matches (Alt a b) k s = (matches a k s \<or> matches b k s)"
| "matches (Seq a b) k s = matches a (\<lambda>t. matches b k t) s"
| "matches Eps k s = k s"

text \<open>\<open>re.search\<close>: a match starting at some position.\<close>

fun re_search :: "regex \<Rightarrow> ustring \<Rightarrow> bool" where
  "re_search r [] = matches r (\<lambda>t. True) []"
| "re_search r (c # cs) = (matches r (\<lambda>t. True) (c # cs) \<or> re_search r cs)"

definition uni :: "string \<Rightarrow> ustring" where
  "uni s = map of_char s"

fun lit :: "ustring \<Rightarrow> regex" where
  "lit [] = Eps"
| "lit (c # cs) = Seq (Chr c) (lit cs)"

text \<open>The matcher chosen in \<open>__init__\<close>: \<open>(last|took|take).* (day)\<close> for \<open>en\<close>,
  \<open>(traja|...).* (dan|...)\<close> with the Cyrillic spellings for \<open>sr\<close>, and \<open>.*\<close>
  otherwise.\<close>

definition sentence_matcher :: "string \<Rightarrow> regex" where
  "sentence_matcher lang =
     (if lang = ''en''
      then Seq (Alt (lit (uni ''last'')) (Alt (lit (uni ''took'')) (lit (uni ''take''))))
             (Seq Dot_star (Seq (Chr 32) (lit (uni ''day''))))
      else if lang = ''sr''
      then Seq (Alt (lit (uni ''traja'')) (lit [1090, 1088, 1072, 1112, 1072]))
             (Seq Dot_star (Seq (Chr 32) (Alt (lit (uni ''dan'')) (lit [1076, 1072, 1085]))))
      else Dot_star)"

subsection \<open>Cleaning the text and finding sentences\<close>

definition re_sub_char :: "nat \<Rightarrow> nat \<Rightarrow> ustring \<Rightarrow> ustring" where
  "re_sub_char a b s = map (\<lambda>c. if c = a then b else c) s"

text \<open>The code points that \<open>str.strip()\<close> removes.\<close>

definition isspace :: "nat \<Rightarrow> bool" where
  "isspace c \<longleftrightarrow>
     (9 \<le> c \<and> c \<le> 13) \<or> (28 \<le> c \<and> c \<le> 32) \<or> c = 133 \<or> c = 160 \<or> c = 5760
     \<or> (8192 \<le> c \<and> c \<le> 8202) \<or> c = 8232 \<or> c = 8233 \<or> c = 8239 \<or> c = 8287
     \<or> c = 12288"

definition strip :: "ustring \<Rightarrow> ustring" where
  "strip s = rev (dropWhile isspace (rev (dropWhile isspace s)))"

text \<open>\<open>re.sub(' +', ' ', s)\<close>: of a run of spaces only the last stays.\<close>

fun squeeze :: "ustring \<Rightarrow> ustring" where
  "squeeze [] = []"
| "squeeze [a] = [a]"
| "squeeze (a # b # s) = (if a = 32 \<and> b = 32 then squeeze (b # s) else a # squeeze (b # s))"

definition clean :: "ustring \<Rightarrow> ustring" where
  "clean content_text =
     squeeze (strip (re_sub_char 9 32 (re_sub_char 13 32 (re_sub_char 10 32 content_text))))"

definition upper_AZ :: "nat \<Rightarrow> bool" where
  "upper_AZ c \<longleftrightarrow> 65 \<le> c \<and> c \<le> 90"

definition terminator :: "nat \<Rightarrow> bool" where
  "terminator c \<longleftrightarrow> c = 46 \<or> c = 33 \<or> c = 63"

text \<open>
  \<open>[A-Z][^.!?]*[.!?]\<close> at the start of the text: the matched sentence and the text after
  it. The star takes every character that is no terminator; the next one has to be a
  terminator, and giving characters back cannot help, since none of them is one.
\<close>

definition match_sentence :: "ustring \<Rightarrow> (ustring \<times> ustring) option" where
  "match_sentence s =
     (case s of
        [] \<Rightarrow> None
      | c # cs \<Rightarrow>
          if upper_AZ c
          then (case dropWhile (\<lambda>x. \<not> terminator x) cs of
                  [] \<Rightarrow> None
                | t # rest \<Rightarrow> Some (c # takeWhile (\<lambda>x. \<not> terminator x) cs @ [t], rest))
          else None)"

text \<open>\<open>re.findall\<close>: the matches from left to right, each search starting where the
  last match ended, or one character on where there was none.\<close>

function findall :: "ustring \<Rightarrow> ustring list" where
  "findall [] = []"
| "findall (c # cs) =
     (case match_sentence (c # cs) of
        Some (m, rest) \<Rightarrow> m # findall rest
      | None \<Rightarrow> findall cs)"
  by pat_completeness auto
termination
proof (relation "measure length")
  show "wf (measure length)" by simp
next
  fix c :: nat and cs x m rest
  assume a: "match_sentence (c # cs) = Some x" "(m, rest) = x"
  then obtain t where "dropWhile (\<lambda>x. \<not> terminator x) cs = t # rest"
    by (auto simp: match_sentence_def split: list.splits if_splits)
  moreover have "length (dropWhile (\<lambda>x. \<not> terminator x) cs) \<le> length cs"
    by (rule length_dropWhile_le)
  ultimately show "(rest, c # cs) \<in> measure length" by simp
next
  fix c :: nat and cs
  show "(cs, c # cs) \<in> measure length" by simp
qed

definition sentences_of :: "regex \<Rightarrow> ustring \<Rightarrow> ustring list" where
  "sentences_of matcher content_text =
     filter (\<lambda>s. re_search matcher s) (findall (clean content_text))"

subsection \<open>The parsing worker\<close>

text \<open>UTF-8, as \<open>str.encode('utf8')\<close> produces it; a surrogate cannot be encoded.\<close>

definition utf8_char :: "nat \<Rightarrow> nat list option" where
  "utf8_char c =
     (if c < 128 then Some [c]
      else if c < 2048 then Some [192 + c div 64, 128 + c mod 64]
      else if 55296 \<le> c \<and> c \<le> 57343 then None
      else if c < 65536
      then Some [224 + c div 4096, 128 + (c div 64) mod 64, 128 + c mod 64]
      else if c < 1114112
      then Some [240 + c div 262144, 128 + (c div 4096) mod 64, 128 + (c div 64) mod 64,
                 128 + c mod 64]
      else None)"

fun encode_utf8 :: "ustring \<Rightarrow> nat list option" where
  "encode_utf8 [] = Some []"
| "encode_utf8 (c # cs) =
     (case utf8_char c of
        None \<Rightarrow> None
      | Some b \<Rightarrow> (case encode_utf8 cs of None \<Rightarrow> None | Some bs \<Rightarrow> Some (b @ bs)))"

text \<open>The loop that writes one line for each sentence; an encoding error ends it with the
  earlier lines written.\<close>

fun write_lines :: "ustring \<Rightarrow> ustring list \<Rightarrow> nat list \<Rightarrow> exn option \<times> nat list" where
  "write_lines title [] out_file = (None, out_file)"
| "write_lines title (sentence # rest) out_file =
     (case encode_utf8 (title @ uni '' - '' @ sentence @ [10]) of
        None \<Rightarrow> (Some UnicodeEncodeError, out_file)
      | Some line \<Rightarrow> write_lines title rest (out_file @ line))"

datatype printed = Page_line nat nat ustring | Sentence_line ustring

text \<open>
  What the workers share and touch: the list of pages, the output files (a file that was
  never opened is not there) and the console.
\<close>

record finder =
  available_pages :: "(ustring \<times> response) list"
  output_files :: "string \<Rightarrow> nat list option"
  stdout :: "printed list"

definition find_sentences :: "ustring \<Rightarrow> response \<Rightarrow> finder \<Rightarrow> finder" where
  "find_sentences title response_content f =
     f\<lparr>available_pages := available_pages f @ [(title, response_content)]\<rparr>"

text \<open>
  One round of \<open>parsing_worker\<close>'s loop, for the worker with this id, output file and
  matcher, and its counter \<open>pages_visited\<close>. The result says whether an exception ended
  the worker.
\<close>

definition parsing_worker ::
  "nat \<Rightarrow> string option \<Rightarrow> regex \<Rightarrow> nat \<times> finder \<Rightarrow> exn option \<times> nat \<times> finder" where
  "parsing_worker worker_id output_file matcher st =
     (case st of (pages_visited, f) \<Rightarrow>
        if length (available_pages f) > 0
        then
          (case last (available_pages f) of (title, response_content) \<Rightarrow>
             let f1 = f\<lparr>available_pages := butlast (available_pages f)\<rparr>
             in (case mw_content_text response_content of
                   None \<Rightarrow> (Some AttributeError, pages_visited, f1)
                 | Some content_text \<Rightarrow>
                     let sentences = sentences_of matcher content_text;
                         pages_visited' = pages_visited + 1;
                         f2 = f1\<lparr>stdout := stdout f1 @
                                 Page_line worker_id pages_visited' title #
                                 map Sentence_line sentences\<rparr>
                     in (case output_file of
                           None \<Rightarrow> (None, pages_visited', f2)
                         | Some path \<Rightarrow>
                             if length sentences > 0
                             then
                               (case write_lines title sentences
                                       (case output_files f2 path of
                                          None \<Rightarrow> [] | Some old \<Rightarrow> old) of
                                  (err, new) \<Rightarrow>
                                    (err, pages_visited',
                                     f2\<lparr>output_files := (output_files f2)(path \<mapsto> new)\<rparr>))
                             else (None, pages_visited', f2))))
        else (None, pages_visited, f))"

section \<open>Example inputs and auxiliary notions\<close>

definition blank :: scraper where
  "blank = \<lparr>links_to_visit = [], visited_links = [], currently_downloading = [],
     downloaded_responses = [], page_download_jobs = [], soup = None, console = []\<rparr>"

definition no_files :: "nat files" where
  "no_files = (\<lambda>path. Absent)"

definition cold_start :: "config \<Rightarrow> scraper" where
  "cold_start cfg = (case iter cfg no_files blank of Inr s \<Rightarrow> s | Inl e \<Rightarrow> blank)"

definition cfg_en :: config where
  "cfg_en = \<lparr>initial_url_arg = None, language = ''en'', num_download_workers = 2,
     log_dir = None\<rparr>"

definition cfg_log :: config where
  "cfg_log = \<lparr>initial_url_arg = None, language = ''en'', num_download_workers = 2,
     log_dir = Some ''log''\<rparr>"

definition doc :: "string list \<Rightarrow> ustring \<Rightarrow> response" where
  "doc hrefs text =
     \<lparr>bodyContent = Some (map Some hrefs), firstHeading = Some (uni ''Title''),
      mw_content_text = Some text\<rparr>"

definition not_a_wiki_page :: response where
  "not_a_wiki_page = \<lparr>bodyContent = None, firstHeading = None, mw_content_text = None\<rparr>"

definition fetch :: "nat \<Rightarrow> response \<Rightarrow> event list" where
  "fetch w r = [Worker w Poll, Worker w (Get (Inr r)), Worker w Cleanup]"

definition one_page :: scraper where
  "one_page = blank\<lparr>downloaded_responses := [(''https://en.wikipedia.org'', doc [] [])]\<rparr>"

definition no_pages :: finder where
  "no_pages = \<lparr>available_pages = [], output_files = (\<lambda>path. None), stdout = []\<rparr>"

text \<open>A slot that \<open>load_progress_file\<close> passes over, and the state it leaves after
  loading a progress record.\<close>

definition passed_over :: "'t slot \<Rightarrow> bool" where
  "passed_over x \<longleftrightarrow> x = Absent \<or> x = Damaged EOFError \<or> x = Damaged FileNotFoundError"

definition restored :: "'t progress \<Rightarrow> scraper \<Rightarrow> scraper" where
  "restored p s =
     s\<lparr>links_to_visit := saved_links_to_visit p, visited_links := saved_visited_links p,
       console := console s @
         [Progress_loaded (length (saved_links_to_visit p)) (length (saved_visited_links p))]\<rparr>"

definition not_newer :: "'t::linorder \<Rightarrow> 't slot \<Rightarrow> bool" where
  "not_newer now x =
     (case x of
        Absent \<Rightarrow> True
      | Damaged e \<Rightarrow> e = EOFError \<or> e = FileNotFoundError
      | Pickled p \<Rightarrow> timestamp p < now)"

definition snapshot :: "'t \<Rightarrow> scraper \<Rightarrow> 't progress" where
  "snapshot now s = \<lparr>timestamp = now,
     saved_links_to_visit = links_to_visit s @ currently_downloading s,
     saved_visited_links = visited_links s\<rparr>"

definition checkpoint1 :: "nat progress" where
  "checkpoint1 = \<lparr>timestamp = 10, saved_links_to_visit = [''https://en.wikipedia.org/wiki/A''],
     saved_visited_links = [''https://en.wikipedia.org'']\<rparr>"

definition checkpoint2 :: "nat progress" where
  "checkpoint2 = \<lparr>timestamp = 20, saved_links_to_visit = [''https://en.wikipedia.org/wiki/B''],
     saved_visited_links = [''https://en.wikipedia.org'', ''https://en.wikipedia.org/wiki/A'']\<rparr>"

definition two_files :: "nat slot \<Rightarrow> nat slot \<Rightarrow> nat files" where
  "two_files a b = (\<lambda>path. if path = ''log/progress1'' then a
     else if path = ''log/progress2'' then b else Absent)"

text \<open>A crawl under way, for the checkpoint examples.\<close>

definition crawling :: scraper where
  "crawling = blank\<lparr>links_to_visit := [''https://en.wikipedia.org/wiki/B''],
     currently_downloading := [''https://en.wikipedia.org/wiki/C''],
     visited_links := [''https://en.wikipedia.org'', ''https://en.wikipedia.org/wiki/C'']\<rparr>"

text \<open>A crawl in which the seed page links to the same article twice.\<close>

definition twice_linked :: "event list" where
  "twice_linked =
     fetch 0 (doc [''/wiki/A'', ''/wiki/A''] []) @ [Next_locked, Parse_links]
     @ fetch 0 (doc [] []) @ fetch 1 (doc [] [])"

text \<open>A finder holding one page whose text is a single sentence about the sky.\<close>

definition sky_page :: finder where
  "sky_page = no_pages\<lparr>available_pages := [(uni ''Sky'', doc [] (uni ''The sky is blue.''))]\<rparr>"

text \<open>Sentences used in the examples: an English one that the pattern matches, the same
  one after other words, and a Serbian one in Cyrillic letters (\<open>Rat je trajao tri dana.\<close>).\<close>

definition trip_body :: ustring where
  "trip_body = uni ''he trip took three days''"

definition trip_sentence :: ustring where
  "trip_sentence = uni ''The trip took three days.''"

definition we_know_trip :: ustring where
  "we_know_trip = uni ''We know The trip took three days.''"

definition serbian_sentence :: ustring where
  "serbian_sentence =
     [1056, 1072, 1090, 32, 1112, 1077, 32, 1090, 1088, 1072, 1112, 1072, 1086, 32,
      1090, 1088, 1080, 32, 1076, 1072, 1085, 1072, 46]"

text \<open>
  For the invariants of the interleaving: the URL a worker holds, whether it is inside
  \<open>requests.get\<close>, and the bound that every step keeps.
\<close>

fun active_url :: "job \<Rightarrow> url option" where
  "active_url (Downloading u) = Some u"
| "active_url (Finishing u) = Some u"
| "active_url j = None"

fun is_downloading :: "job \<Rightarrow> bool" where
  "is_downloading (Downloading u) = True"
| "is_downloading j = False"

definition buffer_bounded :: "scraper \<Rightarrow> bool" where
  "buffer_bounded s \<longleftrightarrow>
     length (downloaded_responses s) + length (filter is_downloading (page_download_jobs s))
       \<le> DOWNLOADED_RESPONSES_TO_BUFFER - 1 + length (page_download_jobs s)"

text \<open>
  A restart from a checkpoint with 101 pending URLs and two workers: worker 0 downloads 99
  pages one after the other, then both workers poll while the buffer holds 99 responses,
  and both downloads come back.
\<close>

definition page_url :: "nat \<Rightarrow> url" where
  "page_url i = ''https://en.wikipedia.org/wiki/'' @ replicate (Suc i) CHR ''a''"

definition later_links :: "url list" where
  "later_links = map page_url [2..<101]"

definition many_links :: "url list" where
  "many_links = page_url 0 # page_url 1 # later_links"

definition full_checkpoint :: "nat progress" where
  "full_checkpoint = \<lparr>timestamp = 10, saved_links_to_visit = many_links,
     saved_visited_links = [''https://en.wikipedia.org'']\<rparr>"

definition restart :: scraper where
  "restart = (case iter cfg_log (two_files (Pickled full_checkpoint) Absent) blank of
                Inr s \<Rightarrow> s | Inl e \<Rightarrow> blank)"

definition overshoot :: "event list" where
  "overshoot = concat (replicate 99 (fetch 0 (doc [] [])))
     @ [Worker 0 Poll, Worker 1 Poll,
        Worker 0 (Get (Inr (doc [] []))), Worker 1 (Get (Inr (doc [] [])))]"

definition cfg_one :: config where
  "cfg_one = \<lparr>initial_url_arg = None, language = ''en'', num_download_workers = 1,
     log_dir = None\<rparr>"

text \<open>Both workers idle, nothing in flight.\<close>

definition quiet :: "scraper \<Rightarrow> url list \<Rightarrow> (url \<times> response) list \<Rightarrow> bool" where
  "quiet s pending ds \<longleftrightarrow>
     links_to_visit s = pending \<and> downloaded_responses s = ds
     \<and> page_download_jobs s = [Idle, Idle] \<and> currently_downloading s = []"

text \<open>
  Two more invariants of the interleaving: every URL that a worker holds is in
  \<open>currently_downloading\<close>, as often as workers hold it, and is in
  \<open>visited_links\<close>. \<open>by_worker\<close> tells the steps of one worker from all
  others; \<open>connection_error\<close> is the step in which \<open>requests.get\<close> raises
  \<open>ConnectionError\<close>.
\<close>

definition in_flight_ok :: "scraper \<Rightarrow> bool" where
  "in_flight_ok s \<longleftrightarrow>
     (\<forall>u. length (filter (\<lambda>j. active_url j = Some u) (page_download_jobs s))
            \<le> count_list (currently_downloading s) u)"

definition holders_visited :: "scraper \<Rightarrow> bool" where
  "holders_visited s \<longleftrightarrow>
     (\<forall>j\<in>set (page_download_jobs s). \<forall>u. active_url j = Some u \<longrightarrow> u \<in> set (visited_links s))"

fun by_worker :: "nat \<Rightarrow> event \<Rightarrow> bool" where
  "by_worker w (Worker w' a) = (w' = w)"
| "by_worker w ev = False"

definition connection_error :: "nat \<Rightarrow> event" where
  "connection_error w = Worker w (Get (Inl ConnectionError))"

definition cut_off_download :: "event list" where
  "cut_off_download =
     [Worker 0 Poll, Worker 0 (Get (Inl ChunkedEncodingError)), Worker 0 Cleanup]"

text \<open>
  The words of the English pattern, as a pattern of their own, and the patterns that can
  only match inside a word: they have no \<open>.*\<close> and no character that matches a
  space.
\<close>

fun wordy :: "regex \<Rightarrow> bool" where
  "wordy (Chr p) = (\<not> ignorecase_eq p 32)"
| "wordy Dot_star = False"
| "wordy (Alt a b) = (wordy a \<and> wordy b)"
| "wordy (Seq a b) = (wordy a \<and> wordy b)"
| "wordy Eps = True"

definition keyword :: regex where
  "keyword = Alt (lit (uni ''last'')) (Alt (lit (uni ''took'')) (lit (uni ''take'')))"

text \<open>
  A buffer whose first response is no wiki page, the state after the seed page with links
  to two articles was parsed, and a finder in which one page is already waiting.
\<close>

definition other_page :: scraper where
  "other_page = blank\<lparr>downloaded_responses :=
     [(''https://en.wikipedia.org'', not_a_wiki_page),
      (''https://en.wikipedia.org/wiki/A'', doc [] [])]\<rparr>"

definition two_pending :: scraper where
  "two_pending = run cfg_en (cold_start cfg_en)
     (fetch 0 (doc [''/wiki/A'', ''/wiki/B''] []) @ [Next_locked, Parse_links])"

definition one_waiting :: finder where
  "one_waiting = no_pages\<lparr>available_pages := [(uni ''First'', doc [] [])]\<rparr>"

section \<open>Properties\<close>

subsection \<open>Basic facts\<close>

lemma run_simps [simp]:
  "run cfg s [] = s"
  "run cfg s (e # es) = run cfg (step cfg s e) es"
  by (simp_all add: run_def)

lemma kill_jobs_fields [simp]:
  "links_to_visit (kill_jobs s) = links_to_visit s"
  "visited_links (kill_jobs s) = visited_links s"
  "currently_downloading (kill_jobs s) = currently_downloading s"
  "downloaded_responses (kill_jobs s) = downloaded_responses s"
  "soup (kill_jobs s) = soup s"
  "console (kill_jobs s) = console s"
  "kill_jobs (kill_jobs s) = kill_jobs s"
  by (simp_all add: kill_jobs_def)

lemma cold_start_cfg_en:
  "cold_start cfg_en = blank\<lparr>links_to_visit := [''https://en.wikipedia.org''],
     page_download_jobs := [Idle, Idle]\<rparr>"
  by (simp add: blank_def cold_start_def iter_def cfg_en_def no_files_def kill_jobs_def
        initial_url_def wikipedia_url_def BASE_WIKIPEDIA_URL_def numeral_2_eq_2)

subsection \<open>The three outcomes of \<open>__next__\<close>\<close>

lemma next_stop:
  "links_to_visit s = [] \<Longrightarrow> currently_downloading s = [] \<Longrightarrow> downloaded_responses s = [] \<Longrightarrow>
     next cfg s = (Inl StopIteration, kill_jobs s)"
  by (simp add: next_def next_locked_def)

lemma next_not_ready:
  "links_to_visit s \<noteq> [] \<or> currently_downloading s \<noteq> [] \<Longrightarrow> downloaded_responses s = [] \<Longrightarrow>
     next cfg s = (Inr NotReady, s)"
  by (simp add: next_def next_locked_def)

lemma next_pops:
  "downloaded_responses s = (u, r) # rest \<Longrightarrow> downloaded_responses (snd (next cfg s)) = rest"
  by (simp add: next_def next_locked_def parse_links_def split: option.splits)

lemma next_ready:
  "downloaded_responses s = (u, r) # rest \<Longrightarrow> bodyContent r = Some anchors \<Longrightarrow>
   firstHeading r = Some title \<Longrightarrow> fst (next cfg s) = Inr (Ready r title)"
  by (simp add: next_def next_locked_def parse_links_def)

lemma next_raises:
  "downloaded_responses s = (u, r) # rest \<Longrightarrow> bodyContent r = None \<or> firstHeading r = None \<Longrightarrow>
     fst (next cfg s) = Inl AttributeError"
  by (auto simp: next_def next_locked_def parse_links_def split: option.splits)

text \<open>
  Claim C3, as the code has it. With the pending list, the downloads in flight and the
  buffer all empty, \<open>__next__\<close> raises \<open>StopIteration\<close>, and the call after it does
  so again; with only the buffer empty it returns \<open>(None, None, None)\<close> and changes
  nothing; otherwise it removes the first buffered entry, whatever the document is, and
  returns the page when the document has an element \<open>bodyContent\<close> and an element
  \<open>firstHeading\<close>; without one of them it raises \<open>AttributeError\<close>.
\<close>

theorem next_cases:
  "(links_to_visit s = [] \<and> currently_downloading s = [] \<and> downloaded_responses s = [] \<longrightarrow>
      next cfg s = (Inl StopIteration, kill_jobs s)
      \<and> next cfg (snd (next cfg s)) = (Inl StopIteration, kill_jobs s))
   \<and> ((links_to_visit s \<noteq> [] \<or> currently_downloading s \<noteq> []) \<and> downloaded_responses s = [] \<longrightarrow>
      next cfg s = (Inr NotReady, s))
   \<and> (downloaded_responses s = (u, r) # rest \<longrightarrow>
      downloaded_responses (snd (next cfg s)) = rest
      \<and> (bodyContent r = Some anchors \<and> firstHeading r = Some title \<longrightarrow>
           fst (next cfg s) = Inr (Ready r title))
      \<and> (bodyContent r = None \<or> firstHeading r = None \<longrightarrow>
           fst (next cfg s) = Inl AttributeError))"
proof (intro conjI impI)
  assume a: "links_to_visit s = [] \<and> currently_downloading s = [] \<and> downloaded_responses s = []"
  then show n: "next cfg s = (Inl StopIteration, kill_jobs s)"
    by (simp add: next_stop)
  from a have "next cfg (kill_jobs s) = (Inl StopIteration, kill_jobs (kill_jobs s))"
    by (intro next_stop) simp_all
  with n show "next cfg (snd (next cfg s)) = (Inl StopIteration, kill_jobs s)"
    by simp
next
  assume "(links_to_visit s \<noteq> [] \<or> currently_downloading s \<noteq> []) \<and> downloaded_responses s = []"
  then show "next cfg s = (Inr NotReady, s)"
    by (simp add: next_not_ready)
next
  assume "downloaded_responses s = (u, r) # rest"
  then show "downloaded_responses (snd (next cfg s)) = rest"
    by (rule next_pops)
next
  assume "downloaded_responses s = (u, r) # rest"
    and "bodyContent r = Some anchors \<and> firstHeading r = Some title"
  then show "fst (next cfg s) = Inr (Ready r title)"
    using next_ready [of s u r rest anchors title cfg] by simp
next
  assume "downloaded_responses s = (u, r) # rest"
    and "bodyContent r = None \<or> firstHeading r = None"
  then show "fst (next cfg s) = Inl AttributeError"
    by (rule next_raises)
qed

theorem next_cases_witness:
  "next cfg_en blank = (Inl StopIteration, kill_jobs blank)
   \<and> next cfg_en (snd (next cfg_en blank)) = (Inl StopIteration, kill_jobs blank)
   \<and> next cfg_en (cold_start cfg_en) = (Inr NotReady, cold_start cfg_en)
   \<and> fst (next cfg_en one_page) = Inr (Ready (doc [] []) (uni ''Title''))
   \<and> downloaded_responses (snd (next cfg_en one_page)) = []
   \<and> fst (next cfg_en other_page) = Inl AttributeError
   \<and> downloaded_responses (snd (next cfg_en other_page))
       = [(''https://en.wikipedia.org/wiki/A'', doc [] [])]"
proof -
  have b: "links_to_visit blank = [] \<and> currently_downloading blank = []
      \<and> downloaded_responses blank = []"
    by (simp add: blank_def)
  have c: "(links_to_visit (cold_start cfg_en) \<noteq> [] \<or> currently_downloading (cold_start cfg_en) \<noteq> [])
      \<and> downloaded_responses (cold_start cfg_en) = []"
    by (simp add: cold_start_cfg_en blank_def)
  have d: "downloaded_responses one_page = (''https://en.wikipedia.org'', doc [] []) # []"
    by (simp add: one_page_def)
  have d': "bodyContent (doc [] []) = Some [] \<and> firstHeading (doc [] []) = Some (uni ''Title'')"
    by (simp add: doc_def)
  have e: "downloaded_responses other_page = (''https://en.wikipedia.org'', not_a_wiki_page)
      # [(''https://en.wikipedia.org/wiki/A'', doc [] [])]"
    by (simp add: other_page_def)
  have e': "bodyContent not_a_wiki_page = None \<or> firstHeading not_a_wiki_page = None"
    by (simp add: not_a_wiki_page_def)
  note 1 = next_cases [of blank cfg_en, THEN conjunct1, THEN mp, OF b]
  note 2 = next_cases [of "cold_start cfg_en" cfg_en, THEN conjunct2, THEN conjunct1, THEN mp, OF c]
  note 3 = next_cases [where s = one_page and cfg = cfg_en
      and u = "''https://en.wikipedia.org''" and r = "doc [] []" and rest = "[]"
      and anchors = "[]" and title = "uni ''Title''", THEN conjunct2, THEN conjunct2, THEN mp, OF d]
  note 4 = next_cases [where s = other_page and cfg = cfg_en
      and u = "''https://en.wikipedia.org''" and r = not_a_wiki_page
      and rest = "[(''https://en.wikipedia.org/wiki/A'', doc [] [])]",
      THEN conjunct2, THEN conjunct2, THEN mp, OF e]
  from 1 2 3 4 d' e' show ?thesis by fast
qed

text \<open>
  The claim as the specification words it fails: a response without an element
  \<open>bodyContent\<close>, fetched from the seed URL, is removed from the buffer and
  \<open>__next__\<close> ends with \<open>AttributeError\<close> instead of a page.
\<close>

theorem next_raises_on_other_page:
  "fst (next cfg_en (run cfg_en (cold_start cfg_en) (fetch 0 not_a_wiki_page)))
     = Inl AttributeError"
  by (simp add: cold_start_cfg_en blank_def fetch_def step_def Let_def
        page_download_worker_def DOWNLOADED_RESPONSES_TO_BUFFER_def next_def next_locked_def
        parse_links_def not_a_wiki_page_def)

subsection \<open>Stack order of both pops\<close>

lemma two_pending_state:
  "0 < length (page_download_jobs two_pending)"
  "page_download_jobs two_pending ! 0 = Idle"
  "length (downloaded_responses two_pending) < DOWNLOADED_RESPONSES_TO_BUFFER"
  "links_to_visit two_pending
     = [''https://en.wikipedia.org/wiki/A''] @ [''https://en.wikipedia.org/wiki/B'']"
  by code_simp+


text \<open>
  Claim C9. A worker that polls while the buffer holds fewer than 100 responses takes the
  last element of \<open>links_to_visit\<close>, the one appended most recently, and appends it to
  \<open>currently_downloading\<close> and \<open>visited_links\<close>. A parsing worker that runs right
  after \<open>find_sentences\<close> pushed a page takes that page: the list is as before the push,
  and the page is the one processed.
\<close>

theorem dequeues_are_LIFO:
  assumes "w < length (page_download_jobs s)"
    and "page_download_jobs s ! w = Idle"
    and "length (downloaded_responses s) < DOWNLOADED_RESPONSES_TO_BUFFER"
    and "links_to_visit s = pending @ [u]"
  shows "links_to_visit (step cfg s (Worker w Poll)) = pending
    \<and> page_download_jobs (step cfg s (Worker w Poll)) ! w = Downloading u
    \<and> currently_downloading (step cfg s (Worker w Poll)) = currently_downloading s @ [u]
    \<and> visited_links (step cfg s (Worker w Poll)) = visited_links s @ [u]
    \<and> available_pages (snd (snd (parsing_worker i out m (n, find_sentences title d f))))
        = available_pages f
    \<and> (case mw_content_text d of
          None \<Rightarrow>
            fst (parsing_worker i out m (n, find_sentences title d f)) = Some AttributeError
        | Some text \<Rightarrow>
            stdout (snd (snd (parsing_worker i out m (n, find_sentences title d f))))
              = stdout f @ Page_line i (n + 1) title # map Sentence_line (sentences_of m text))"
proof -
  from assms have "links_to_visit (step cfg s (Worker w Poll)) = pending"
    and "page_download_jobs (step cfg s (Worker w Poll)) ! w = Downloading u"
    and "currently_downloading (step cfg s (Worker w Poll)) = currently_downloading s @ [u]"
    and "visited_links (step cfg s (Worker w Poll)) = visited_links s @ [u]"
    by (simp_all add: step_def page_download_worker_def)
  moreover have "available_pages (snd (snd (parsing_worker i out m (n, find_sentences title d f))))
        = available_pages f"
    by (simp add: parsing_worker_def find_sentences_def Let_def
          split: option.splits prod.splits)
  moreover have "case mw_content_text d of
      None \<Rightarrow> fst (parsing_worker i out m (n, find_sentences title d f)) = Some AttributeError
    | Some text \<Rightarrow>
        stdout (snd (snd (parsing_worker i out m (n, find_sentences title d f))))
          = stdout f @ Page_line i (n + 1) title # map Sentence_line (sentences_of m text)"
    by (simp add: parsing_worker_def find_sentences_def Let_def
          split: option.splits prod.splits)
  ultimately show ?thesis by simp
qed

theorem dequeues_are_LIFO_witness:
  "links_to_visit (step cfg_en two_pending (Worker 0 Poll)) = [''https://en.wikipedia.org/wiki/A'']
   \<and> page_download_jobs (step cfg_en two_pending (Worker 0 Poll)) ! 0
       = Downloading ''https://en.wikipedia.org/wiki/B''
   \<and> currently_downloading (step cfg_en two_pending (Worker 0 Poll))
       = currently_downloading two_pending @ [''https://en.wikipedia.org/wiki/B'']
   \<and> visited_links (step cfg_en two_pending (Worker 0 Poll))
       = visited_links two_pending @ [''https://en.wikipedia.org/wiki/B'']
   \<and> available_pages (snd (snd (parsing_worker 0 None Dot_star
        (0, find_sentences (uni ''Second'') (doc [] (uni ''The sky is blue.'')) one_waiting))))
       = [(uni ''First'', doc [] [])]
   \<and> stdout (snd (snd (parsing_worker 0 None Dot_star
        (0, find_sentences (uni ''Second'') (doc [] (uni ''The sky is blue.'')) one_waiting))))
       = Page_line 0 1 (uni ''Second'')
         # map Sentence_line (sentences_of Dot_star (uni ''The sky is blue.''))"
proof -
  have f: "available_pages one_waiting = [(uni ''First'', doc [] [])]" "stdout one_waiting = []"
    by (simp_all add: one_waiting_def no_pages_def)
  have m: "mw_content_text (doc [] (uni ''The sky is blue.'')) = Some (uni ''The sky is blue.'')"
    by (simp add: doc_def)
  from dequeues_are_LIFO [OF two_pending_state, of cfg_en 0 None Dot_star 0 "uni ''Second''"
      "doc [] (uni ''The sky is blue.'')" one_waiting]
  show ?thesis by (simp add: f m)
qed


subsection \<open>Loading the newest checkpoint\<close>

lemma sorted_reverse_two:
  "hd (sorted_reverse timestamp [p, q]) = (if timestamp p < timestamp q then q else p)"
  by (simp add: sorted_reverse_def not_less)

lemma load_all_two:
  "load_all fs [f1, f2] [] =
     (case read_pickle fs f1 of
        Inr p \<Rightarrow> (case read_pickle fs f2 of
                   Inr q \<Rightarrow> Inr [p, q]
                 | Inl e \<Rightarrow> if e = EOFError \<or> e = FileNotFoundError then Inr [p] else Inl e)
      | Inl e \<Rightarrow>
          if e = EOFError \<or> e = FileNotFoundError
          then (case read_pickle fs f2 of
                  Inr q \<Rightarrow> Inr [q]
                | Inl e' \<Rightarrow> if e' = EOFError \<or> e' = FileNotFoundError then Inr [] else Inl e')
          else Inl e)"
  by (simp split: sum.splits)

lemma read_pickle_passed_over:
  "passed_over (fs f) \<Longrightarrow> \<exists>e. read_pickle fs f = Inl e \<and> (e = EOFError \<or> e = FileNotFoundError)"
  by (auto simp: passed_over_def read_pickle_def)

lemma read_pickle_Pickled: "fs f = Pickled p \<Longrightarrow> read_pickle fs f = Inr p"
  by (simp add: read_pickle_def)

lemma load_both:
  assumes "log_dir cfg = Some d"
    and "fs (path_join d ''progress1'') = Pickled p"
    and "fs (path_join d ''progress2'') = Pickled q"
  shows "load_progress_file cfg fs s =
    Inr (True, restored (if timestamp p < timestamp q then q else p) s)"
  using assms
  by (simp add: load_progress_file_def PROGRESS_FILES_def load_all_two read_pickle_Pickled
        sorted_reverse_two restored_def Let_def del: load_all.simps)

lemma load_first:
  assumes "log_dir cfg = Some d"
    and "fs (path_join d ''progress1'') = Pickled p"
    and "passed_over (fs (path_join d ''progress2''))"
  shows "load_progress_file cfg fs s = Inr (True, restored p s)"
  using assms read_pickle_passed_over [of fs "path_join d ''progress2''"]
  by (auto simp: load_progress_file_def PROGRESS_FILES_def load_all_two read_pickle_Pickled
        sorted_reverse_def restored_def Let_def simp del: load_all.simps)

lemma load_second:
  assumes "log_dir cfg = Some d"
    and "passed_over (fs (path_join d ''progress1''))"
    and "fs (path_join d ''progress2'') = Pickled q"
  shows "load_progress_file cfg fs s = Inr (True, restored q s)"
  using assms read_pickle_passed_over [of fs "path_join d ''progress1''"]
  by (auto simp: load_progress_file_def PROGRESS_FILES_def load_all_two read_pickle_Pickled
        sorted_reverse_def restored_def Let_def simp del: load_all.simps)

lemma load_none:
  assumes "log_dir cfg = Some d"
    and "passed_over (fs (path_join d ''progress1''))"
    and "passed_over (fs (path_join d ''progress2''))"
  shows "load_progress_file cfg fs s = Inr (False, s)"
  using assms read_pickle_passed_over [of fs "path_join d ''progress1''"]
    read_pickle_passed_over [of fs "path_join d ''progress2''"]
  by (auto simp: load_progress_file_def PROGRESS_FILES_def load_all_two
        simp del: load_all.simps)


lemma iter_cold:
  assumes "log_dir cfg = Some d"
    and "passed_over (fs (path_join d ''progress1''))"
    and "passed_over (fs (path_join d ''progress2''))"
  shows "iter cfg fs s =
    Inr \<lparr>links_to_visit = [initial_url cfg], visited_links = [], currently_downloading = [],
      downloaded_responses = [],
      page_download_jobs = replicate (num_download_workers cfg) Idle, soup = None,
      console = console s\<rparr>"
  using assms(1) by (simp add: iter_def load_none [OF assms] kill_jobs_def)

text \<open>
  What holds of the load. A slot whose file is missing, or whose unpickling raises
  \<open>EOFError\<close>, is passed over. Of two slots that load, the one with the larger
  timestamp is restored; a single slot that loads is restored; with no slot loaded the
  function returns \<open>False\<close> and \<open>__iter__\<close> starts from the initial URL alone.
\<close>

theorem load_progress_file_newest:
  assumes "log_dir cfg = Some d"
    and "fs (path_join d ''progress1'') = a"
    and "fs (path_join d ''progress2'') = b"
  shows "(a = Pickled p \<and> b = Pickled q \<and> timestamp p < timestamp q \<longrightarrow>
            load_progress_file cfg fs s = Inr (True, restored q s))
    \<and> (a = Pickled p \<and> b = Pickled q \<and> timestamp q < timestamp p \<longrightarrow>
            load_progress_file cfg fs s = Inr (True, restored p s))
    \<and> (a = Pickled p \<and> passed_over b \<longrightarrow>
            load_progress_file cfg fs s = Inr (True, restored p s))
    \<and> (passed_over a \<and> b = Pickled q \<longrightarrow>
            load_progress_file cfg fs s = Inr (True, restored q s))
    \<and> (passed_over a \<and> passed_over b \<longrightarrow>
            load_progress_file cfg fs s = Inr (False, s)
            \<and> iter cfg fs s =
                Inr \<lparr>links_to_visit = [initial_url cfg], visited_links = [],
                  currently_downloading = [], downloaded_responses = [],
                  page_download_jobs = replicate (num_download_workers cfg) Idle,
                  soup = None, console = console s\<rparr>)"
proof (intro conjI impI)
  assume "a = Pickled p \<and> b = Pickled q \<and> timestamp p < timestamp q"
  with assms show "load_progress_file cfg fs s = Inr (True, restored q s)"
    using load_both [of cfg d fs p q s] by simp
next
  assume "a = Pickled p \<and> b = Pickled q \<and> timestamp q < timestamp p"
  then have "a = Pickled p" "b = Pickled q" "\<not> timestamp p < timestamp q"
    by auto
  with assms show "load_progress_file cfg fs s = Inr (True, restored p s)"
    using load_both [of cfg d fs p q s] by simp
next
  assume "a = Pickled p \<and> passed_over b"
  with assms show "load_progress_file cfg fs s = Inr (True, restored p s)"
    using load_first [of cfg d fs p s] by simp
next
  assume "passed_over a \<and> b = Pickled q"
  with assms show "load_progress_file cfg fs s = Inr (True, restored q s)"
    using load_second [of cfg d fs q s] by simp
next
  assume "passed_over a \<and> passed_over b"
  with assms show "load_progress_file cfg fs s = Inr (False, s)"
    using load_none [of cfg d fs s] by simp
next
  assume "passed_over a \<and> passed_over b"
  with assms show "iter cfg fs s =
      Inr \<lparr>links_to_visit = [initial_url cfg], visited_links = [],
        currently_downloading = [], downloaded_responses = [],
        page_download_jobs = replicate (num_download_workers cfg) Idle,
        soup = None, console = console s\<rparr>"
    using iter_cold [of cfg d fs s] by simp
qed

lemma log_paths [simp]:
  "path_join ''log'' ''progress1'' = ''log/progress1''"
  "path_join ''log'' ''progress2'' = ''log/progress2''"
  by (simp_all add: path_join_def)

theorem load_progress_file_newest_witness:
  "load_progress_file cfg_log (two_files (Pickled checkpoint1) (Pickled checkpoint2)) blank
     = Inr (True, restored checkpoint2 blank)
   \<and> load_progress_file cfg_log (two_files (Damaged EOFError) (Pickled checkpoint1)) blank
     = Inr (True, restored checkpoint1 blank)
   \<and> load_progress_file cfg_log (two_files Absent (Damaged EOFError)) blank
     = Inr (False, blank)"
proof -
  have d: "log_dir cfg_log = Some ''log''"
    by (simp add: cfg_log_def)
  have 1: "Pickled checkpoint1 = Pickled checkpoint1 \<and> Pickled checkpoint2 = Pickled checkpoint2
      \<and> timestamp checkpoint1 < timestamp checkpoint2"
    by (simp add: checkpoint1_def checkpoint2_def)
  have 2: "passed_over (Damaged EOFError :: nat slot) \<and> Pickled checkpoint1 = Pickled checkpoint1"
    by (simp add: passed_over_def)
  have 3: "passed_over (Absent :: nat slot) \<and> passed_over (Damaged EOFError :: nat slot)"
    by (simp add: passed_over_def)
  note t1 = load_progress_file_newest [OF d, of "two_files (Pickled checkpoint1) (Pickled checkpoint2)"
      "Pickled checkpoint1" "Pickled checkpoint2" checkpoint1 checkpoint2 blank,
      THEN conjunct1, THEN mp, OF _ _ 1]
  note t2 = load_progress_file_newest [OF d, of "two_files (Damaged EOFError) (Pickled checkpoint1)"
      "Damaged EOFError" "Pickled checkpoint1" checkpoint1 checkpoint1 blank,
      THEN conjunct2, THEN conjunct2, THEN conjunct2, THEN conjunct1, THEN mp, OF _ _ 2]
  note t3 = load_progress_file_newest [OF d, of "two_files Absent (Damaged EOFError)"
      "Absent" "Damaged EOFError" checkpoint1 checkpoint1 blank,
      THEN conjunct2, THEN conjunct2, THEN conjunct2, THEN conjunct2, THEN mp, OF _ _ 3,
      THEN conjunct1]
  have "load_progress_file cfg_log (two_files (Pickled checkpoint1) (Pickled checkpoint2)) blank
     = Inr (True, restored checkpoint2 blank)"
    by (rule t1) (simp_all add: two_files_def)
  moreover have "load_progress_file cfg_log (two_files (Damaged EOFError) (Pickled checkpoint1)) blank
     = Inr (True, restored checkpoint1 blank)"
    by (rule t2) (simp_all add: two_files_def)
  moreover have "load_progress_file cfg_log (two_files Absent (Damaged EOFError)) blank
     = Inr (False, blank)"
    by (rule t3) (simp_all add: two_files_def)
  ultimately show ?thesis by fast
qed

text \<open>
  Claim C5 does not hold of the code. A checkpoint file cut inside a record, as a writer
  killed in the middle of \<open>pickle.dump\<close> leaves it, makes \<open>pickle.load\<close> raise
  \<open>UnpicklingError\<close>. No \<open>except\<close> clause names it, so
  \<open>load_progress_file\<close> raises instead of passing the slot over, although the other
  slot holds a whole checkpoint.
\<close>

theorem load_progress_file_raises_on_cut_pickle:
  "load_progress_file cfg_log (two_files (Damaged UnpicklingError) (Pickled checkpoint2)) blank
     = Inl UnpicklingError"
  by (simp add: load_progress_file_def cfg_log_def PROGRESS_FILES_def read_pickle_def
        two_files_def)

subsection \<open>Writing a checkpoint and loading it\<close>

lemma progress_paths_differ: "path_join d ''progress1'' \<noteq> path_join d ''progress2''"
  by (simp add: path_join_def)

lemma not_newer_cases:
  "not_newer now x \<Longrightarrow> passed_over x \<or> (\<exists>p. x = Pickled p \<and> timestamp p < now)"
  by (auto simp: not_newer_def passed_over_def split: slot.splits)

lemma write_slot0:
  "snd (progress_log_worker d now s (0, fs))
     = fs(path_join d ''progress1'' := Pickled (snapshot now s))"
  by (simp add: progress_log_worker_def PROGRESS_FILES_def Let_def snapshot_def)

lemma write_slot1:
  "snd (progress_log_worker d now s (Suc 0, fs))
     = fs(path_join d ''progress2'' := Pickled (snapshot now s))"
  by (simp add: progress_log_worker_def PROGRESS_FILES_def Let_def snapshot_def)

lemma restored_sets:
  "set (links_to_visit (restored (snapshot now s) s'))
     = set (links_to_visit s) \<union> set (currently_downloading s)"
  "set (visited_links (restored (snapshot now s) s')) = set (visited_links s)"
  by (simp_all add: restored_def snapshot_def)

lemma timestamp_snapshot [simp]: "timestamp (snapshot now s) = now"
  by (simp add: snapshot_def)

lemma round_trip0:
  assumes "log_dir cfg = Some d"
    and "not_newer now (fs (path_join d ''progress2''))"
  shows "load_progress_file cfg (snd (progress_log_worker d now s (0, fs))) s'
     = Inr (True, restored (snapshot now s) s')"
proof -
  let ?fs = "fs(path_join d ''progress1'' := Pickled (snapshot now s))"
  have 1: "?fs (path_join d ''progress1'') = Pickled (snapshot now s)" by simp
  have 2: "?fs (path_join d ''progress2'') = fs (path_join d ''progress2'')"
    using progress_paths_differ [of d] by simp
  from not_newer_cases [OF assms(2)] show ?thesis
  proof
    assume "passed_over (fs (path_join d ''progress2''))"
    with 2 have "passed_over (?fs (path_join d ''progress2''))" by simp
    from load_first [where fs = ?fs, OF assms(1) 1 this] show ?thesis by (simp only: write_slot0)
  next
    assume "\<exists>p. fs (path_join d ''progress2'') = Pickled p \<and> timestamp p < now"
    then obtain p where p: "fs (path_join d ''progress2'') = Pickled p" "timestamp p < now"
      by blast
    with 2 have q: "?fs (path_join d ''progress2'') = Pickled p" by simp
    from p(2) have "\<not> now < timestamp p" by simp
    then show ?thesis
      using load_both [where fs = ?fs and p = "snapshot now s" and q = p and s = s',
          OF assms(1) 1 q]
      by (simp only: write_slot0 timestamp_snapshot if_False)
  qed
qed

lemma round_trip1:
  assumes "log_dir cfg = Some d"
    and "not_newer now (fs (path_join d ''progress1''))"
  shows "load_progress_file cfg (snd (progress_log_worker d now s (Suc 0, fs))) s'
     = Inr (True, restored (snapshot now s) s')"
proof -
  let ?fs = "fs(path_join d ''progress2'' := Pickled (snapshot now s))"
  have 1: "?fs (path_join d ''progress2'') = Pickled (snapshot now s)" by simp
  have 2: "?fs (path_join d ''progress1'') = fs (path_join d ''progress1'')"
    using progress_paths_differ [of d] by simp
  from not_newer_cases [OF assms(2)] show ?thesis
  proof
    assume "passed_over (fs (path_join d ''progress1''))"
    with 2 have "passed_over (?fs (path_join d ''progress1''))" by simp
    from load_second [where fs = ?fs, OF assms(1) this 1] show ?thesis by (simp only: write_slot1)
  next
    assume "\<exists>p. fs (path_join d ''progress1'') = Pickled p \<and> timestamp p < now"
    then obtain p where p: "fs (path_join d ''progress1'') = Pickled p" "timestamp p < now"
      by blast
    with 2 have q: "?fs (path_join d ''progress1'') = Pickled p" by simp
    show ?thesis
      using load_both [where fs = ?fs and p = p and q = "snapshot now s" and s = s',
          OF assms(1) q 1] p(2)
      by (simp only: write_slot1 timestamp_snapshot if_True)
  qed
qed

text \<open>
  Claim C6. One round of the progress writer, at time \<open>now\<close> and into either slot,
  followed by \<open>load_progress_file\<close>, restores exactly the written lists, provided
  the load selects the slot just written: the other slot is missing, raises
  \<open>EOFError\<close>, or holds an older checkpoint. The restored \<open>links_to_visit\<close> is
  then, as a set, the pending and in-flight URLs at the time of the copy, and the restored
  \<open>visited_links\<close> is the visited set.
\<close>

theorem checkpoint_round_trip:
  assumes "log_dir cfg = Some d"
    and "i < 2"
    and "not_newer now (fs (path_join d (PROGRESS_FILES ! (1 - i))))"
  shows "load_progress_file cfg (snd (progress_log_worker d now s (i, fs))) s'
      = Inr (True, restored (snapshot now s) s')
    \<and> set (links_to_visit (restored (snapshot now s) s'))
         = set (links_to_visit s) \<union> set (currently_downloading s)
    \<and> set (visited_links (restored (snapshot now s) s')) = set (visited_links s)"
proof -
  from assms(2) have "i = 0 \<or> i = Suc 0" by arith
  then have "load_progress_file cfg (snd (progress_log_worker d now s (i, fs))) s'
      = Inr (True, restored (snapshot now s) s')"
  proof
    assume "i = 0"
    with assms show ?thesis by (simp add: round_trip0 PROGRESS_FILES_def)
  next
    assume "i = Suc 0"
    with assms show ?thesis by (simp add: round_trip1 PROGRESS_FILES_def)
  qed
  then show ?thesis by (simp add: restored_sets)
qed

theorem checkpoint_round_trip_witness:
  "load_progress_file cfg_log
      (snd (progress_log_worker ''log'' (30::nat) crawling (1, two_files (Pickled checkpoint1) Absent)))
      blank
     = Inr (True, restored (snapshot (30::nat) crawling) blank)
   \<and> set (links_to_visit (restored (snapshot (30::nat) crawling) blank))
       = set (links_to_visit crawling) \<union> set (currently_downloading crawling)
   \<and> set (visited_links (restored (snapshot (30::nat) crawling) blank))
       = set (visited_links crawling)"
proof -
  have a: "log_dir cfg_log = Some ''log''"
    by (simp add: cfg_log_def)
  have b: "(1::nat) < 2"
    by simp
  have c: "not_newer (30::nat) (two_files (Pickled checkpoint1) Absent
           (path_join ''log'' (PROGRESS_FILES ! (1 - 1))))"
    by (simp add: not_newer_def two_files_def PROGRESS_FILES_def checkpoint1_def)
  show ?thesis
    by (rule checkpoint_round_trip [where cfg = cfg_log and d = "''log''" and i = 1
      and now = 30 and fs = "two_files (Pickled checkpoint1) Absent" and s = crawling
      and s' = blank, OF a b c])
qed

subsection \<open>A URL can be fetched twice\<close>

text \<open>
  Claim C1 does not hold of the code. \<open>parse_links\<close> checks a link against
  \<open>visited_links\<close>, \<open>currently_downloading\<close> and the keys of
  \<open>downloaded_responses\<close>, but not against \<open>links_to_visit\<close> or against the
  other links of the same page. From a cold start, with a seed page that has two anchors to
  \<open>/wiki/A\<close>, the pending list holds that URL twice, and the workers pop and fetch
  it twice: it is in \<open>visited_links\<close> two times.
\<close>

theorem linked_twice_fetched_twice:
  "links_to_visit (run cfg_en (cold_start cfg_en)
       (fetch 0 (doc [''/wiki/A'', ''/wiki/A''] []) @ [Next_locked, Parse_links]))
     = [''https://en.wikipedia.org/wiki/A'', ''https://en.wikipedia.org/wiki/A'']
   \<and> visited_links (run cfg_en (cold_start cfg_en) twice_linked)
     = [''https://en.wikipedia.org'', ''https://en.wikipedia.org/wiki/A'',
        ''https://en.wikipedia.org/wiki/A'']"
  by code_simp

subsection \<open>The output file of a parsing worker\<close>

lemma write_lines_appends: "\<exists>added. snd (write_lines title ss old) = old @ added"
proof (induction ss arbitrary: old)
  case Nil
  then show ?case by simp
next
  case (Cons x xs)
  show ?case
  proof (cases "encode_utf8 (title @ uni '' - '' @ x @ [10])")
    case None
    then show ?thesis by simp
  next
    case (Some line)
    from Cons.IH [of "old @ line"] obtain added
      where "snd (write_lines title xs (old @ line)) = (old @ line) @ added" by blast
    with Some show ?thesis by simp
  qed
qed

lemma worker_on_page:
  assumes "available_pages f = ps @ [(title, d)]" and "mw_content_text d = Some content_text"
  shows "output_files (snd (snd (parsing_worker i out m (n, f)))) =
    (case out of
       None \<Rightarrow> output_files f
     | Some path \<Rightarrow>
         if sentences_of m content_text = [] then output_files f
         else (output_files f)(path \<mapsto>
                snd (write_lines title (sentences_of m content_text)
                      (case output_files f path of None \<Rightarrow> [] | Some old \<Rightarrow> old))))"
  using assms
  by (simp add: parsing_worker_def Let_def split: option.splits prod.splits)

lemma worker_no_text:
  assumes "available_pages f = ps @ [(title, d)]" and "mw_content_text d = None"
  shows "output_files (snd (snd (parsing_worker i out m (n, f)))) = output_files f"
  using assms by (simp add: parsing_worker_def Let_def)

lemma worker_no_page:
  assumes "available_pages f = []"
  shows "output_files (snd (snd (parsing_worker i out m (n, f)))) = output_files f"
  using assms by (simp add: parsing_worker_def)

text \<open>
  Claim C10. When the page a worker takes has no sentence that matches, the output files
  are exactly as before. Whenever a round of the worker changes the output files, it took
  a page with at least one matching sentence and has an output file. And when there are
  matching sentences, the worker's file keeps its old content as a prefix: it is appended
  to.
\<close>

theorem file_untouched_without_match:
  "(available_pages f = ps @ [(title, d)] \<and> mw_content_text d = Some content_text
      \<and> sentences_of m content_text = [] \<longrightarrow>
        output_files (snd (snd (parsing_worker i out m (n, f)))) = output_files f)
   \<and> (output_files (snd (snd (parsing_worker i out m (n, f)))) \<noteq> output_files f \<longrightarrow>
        (\<exists>ps' title' d' content_text'. available_pages f = ps' @ [(title', d')]
            \<and> mw_content_text d' = Some content_text' \<and> sentences_of m content_text' \<noteq> [] \<and> out \<noteq> None))
   \<and> (available_pages f = ps @ [(title, d)] \<and> mw_content_text d = Some content_text
      \<and> sentences_of m content_text \<noteq> [] \<and> out = Some path \<longrightarrow>
        (\<exists>added. output_files (snd (snd (parsing_worker i out m (n, f)))) =
           (output_files f)(path \<mapsto>
              (case output_files f path of None \<Rightarrow> [] | Some old \<Rightarrow> old) @ added)))"
proof (intro conjI impI)
  assume "available_pages f = ps @ [(title, d)] \<and> mw_content_text d = Some content_text
      \<and> sentences_of m content_text = []"
  then show "output_files (snd (snd (parsing_worker i out m (n, f)))) = output_files f"
    using worker_on_page [of f ps title d content_text i out m n] by (simp split: option.splits)
next
  assume ch: "output_files (snd (snd (parsing_worker i out m (n, f)))) \<noteq> output_files f"
  show "\<exists>ps' title' d' content_text'. available_pages f = ps' @ [(title', d')]
            \<and> mw_content_text d' = Some content_text' \<and> sentences_of m content_text' \<noteq> [] \<and> out \<noteq> None"
  proof (cases "available_pages f" rule: rev_cases)
    case Nil
    with ch worker_no_page [of f i out m n] show ?thesis by simp
  next
    case (snoc ps' x)
    obtain title' d' where x: "x = (title', d')" by (cases x)
    show ?thesis
    proof (cases "mw_content_text d'")
      case None
      with ch snoc x worker_no_text [of f ps' title' d' i out m n] show ?thesis by simp
    next
      case (Some content_text')
      with ch snoc x worker_on_page [of f ps' title' d' content_text' i out m n]
      have "sentences_of m content_text' \<noteq> [] \<and> out \<noteq> None"
        by (auto split: option.splits if_splits)
      with snoc x Some show ?thesis by blast
    qed
  qed
next
  assume a: "available_pages f = ps @ [(title, d)] \<and> mw_content_text d = Some content_text
      \<and> sentences_of m content_text \<noteq> [] \<and> out = Some path"
  obtain added where "snd (write_lines title (sentences_of m content_text)
        (case output_files f path of None \<Rightarrow> [] | Some old \<Rightarrow> old))
      = (case output_files f path of None \<Rightarrow> [] | Some old \<Rightarrow> old) @ added"
    using write_lines_appends by blast
  with a show "\<exists>added. output_files (snd (snd (parsing_worker i out m (n, f)))) =
           (output_files f)(path \<mapsto>
              (case output_files f path of None \<Rightarrow> [] | Some old \<Rightarrow> old) @ added)"
    using worker_on_page [of f ps title d content_text i out m n] by auto
qed

lemma sky_no_match: "sentences_of (sentence_matcher ''en'') (uni ''The sky is blue.'') = []"
  by code_simp

theorem file_untouched_without_match_witness:
  "output_files (snd (snd (parsing_worker 0 (Some ''w0.txt'') (sentence_matcher ''en'')
      (0, sky_page)))) = output_files sky_page"
proof -
  have "available_pages sky_page = [] @ [(uni ''Sky'', doc [] (uni ''The sky is blue.''))]
      \<and> mw_content_text (doc [] (uni ''The sky is blue.'')) = Some (uni ''The sky is blue.'')
      \<and> sentences_of (sentence_matcher ''en'') (uni ''The sky is blue.'') = []"
    by (simp add: sky_page_def doc_def sky_no_match)
  from file_untouched_without_match [where f = sky_page and ps = "[]" and title = "uni ''Sky''"
      and d = "doc [] (uni ''The sky is blue.'')" and content_text = "uni ''The sky is blue.''"
      and m = "sentence_matcher ''en''", THEN conjunct1, THEN mp, OF this]
  show ?thesis .
qed

subsection \<open>Sentence candidates\<close>

lemma upper_not_terminator: "upper_AZ c \<Longrightarrow> \<not> terminator c"
  by (auto simp: upper_AZ_def terminator_def)

lemma match_sentence_eq:
  assumes "upper_AZ c" and "\<forall>x\<in>set u. \<not> terminator x" and "terminator t"
  shows "match_sentence (c # u @ t # r) = Some (c # u @ [t], r)"
proof -
  have "takeWhile (\<lambda>x. \<not> terminator x) (u @ t # r) = u"
    using assms(2,3) by (simp add: takeWhile_append2)
  moreover have "dropWhile (\<lambda>x. \<not> terminator x) (u @ t # r) = t # r"
    using assms(2,3) by (simp add: dropWhile_append2)
  ultimately show ?thesis using assms(1) by (simp add: match_sentence_def)
qed

lemma match_sentence_not_upper: "\<not> upper_AZ c \<Longrightarrow> match_sentence (c # cs) = None"
  by (simp add: match_sentence_def)

lemma match_sentence_shape:
  assumes "match_sentence s = Some (m, rest)"
  shows "\<exists>c u t. m = c # u @ [t] \<and> upper_AZ c \<and> (\<forall>x\<in>set u. \<not> terminator x)
     \<and> terminator t \<and> s = m @ rest"
proof -
  from assms obtain c cs t where s: "s = c # cs" and up: "upper_AZ c"
    and d: "dropWhile (\<lambda>x. \<not> terminator x) cs = t # rest"
    and m: "m = c # takeWhile (\<lambda>x. \<not> terminator x) cs @ [t]"
    by (auto simp: match_sentence_def split: list.splits if_splits)
  let ?u = "takeWhile (\<lambda>x. \<not> terminator x) cs"
  have "\<forall>x\<in>set ?u. \<not> terminator x"
    by (auto dest: set_takeWhileD)
  moreover from d have "terminator t"
    using hd_dropWhile [of "\<lambda>x. \<not> terminator x" cs] by simp
  moreover have "cs = ?u @ t # rest"
    using takeWhile_dropWhile_id [of "\<lambda>x. \<not> terminator x" cs] d by simp
  ultimately show ?thesis using s up m by auto
qed

lemma sublist_later: "sublist m cs \<Longrightarrow> sublist m (c # cs)"
  unfolding sublist_def by (metis append_Cons)

lemma sublist_after: "sublist m rest \<Longrightarrow> sublist m (p @ rest)"
  unfolding sublist_def by (metis append_assoc)

text \<open>
  What holds of every candidate that \<open>findall\<close> returns: it is a piece of the
  text, begins with a letter from A to Z, ends with a terminator and has no terminator
  before that.
\<close>

lemma findall_candidates:
  "m \<in> set (findall s) \<Longrightarrow>
     \<exists>c u t. m = c # u @ [t] \<and> upper_AZ c \<and> (\<forall>x\<in>set u. \<not> terminator x) \<and> terminator t
       \<and> sublist m s"
proof (induction s rule: findall.induct)
  case 1
  then show ?case by simp
next
  case (2 c cs)
  show ?case
  proof (cases "match_sentence (c # cs)")
    case None
    with 2 obtain c' u t where "m = c' # u @ [t]" "upper_AZ c'" "\<forall>x\<in>set u. \<not> terminator x"
      "terminator t" "sublist m cs"
      by auto
    then show ?thesis by (auto intro: sublist_later)
  next
    case (Some x)
    obtain m' rest where x: "x = (m', rest)" by (cases x)
    from match_sentence_shape [of "c # cs" m' rest] Some x
    obtain c' u t where sh: "m' = c' # u @ [t]" "upper_AZ c'" "\<forall>x\<in>set u. \<not> terminator x"
      "terminator t" "c # cs = m' @ rest"
      by auto
    from 2(3) Some x have "m = m' \<or> m \<in> set (findall rest)" by simp
    then show ?thesis
    proof
      assume "m = m'"
      with sh show ?thesis by (metis sublist_appendI append_Nil)
    next
      assume "m \<in> set (findall rest)"
      with 2(2) [OF Some x [symmetric]] obtain c'' u' t' where
        r: "m = c'' # u' @ [t']" "upper_AZ c''" "\<forall>x\<in>set u'. \<not> terminator x"
        "terminator t'" "sublist m rest"
        by auto
      from r(5) sh(5) have "sublist m (c # cs)"
        by (simp add: sublist_after)
      with r show ?thesis by auto
    qed
  qed
qed

lemma findall_covers:
  assumes up: "upper_AZ h" and body: "\<forall>x\<in>set body. \<not> terminator x" and t: "terminator t"
  shows "\<exists>m\<in>set (findall (a @ (h # body @ [t]) @ b)). suffix (h # body @ [t]) m"
proof (induction a rule: length_induct)
  case (1 a)
  let ?S = "h # body @ [t]"
  show ?case
  proof (cases a)
    case Nil
    have "match_sentence (h # body @ t # b) = Some (?S, b)"
      using match_sentence_eq [OF up body t] by simp
    with Nil show ?thesis by simp
  next
    case (Cons c a')
    show ?thesis
    proof (cases "upper_AZ c")
      case False
      then have "findall (a @ ?S @ b) = findall (a' @ ?S @ b)"
        using Cons by (simp add: match_sentence_not_upper)
      moreover from 1 Cons have "\<exists>m\<in>set (findall (a' @ ?S @ b)). suffix ?S m"
        by simp
      ultimately show ?thesis by simp
    next
      case True
      show ?thesis
      proof (cases "\<exists>x\<in>set a'. terminator x")
        case True
        then obtain a1 x a2 where sp: "a' = a1 @ x # a2" "terminator x"
          "\<forall>y\<in>set a1. \<not> terminator y"
          using split_list_first_prop [of a' terminator] by blast
        have "match_sentence (c # a1 @ x # (a2 @ ?S @ b)) = Some (c # a1 @ [x], a2 @ ?S @ b)"
          using match_sentence_eq [OF \<open>upper_AZ c\<close> sp(3) sp(2)] by simp
        then have f: "findall (a @ ?S @ b) = (c # a1 @ [x]) # findall (a2 @ ?S @ b)"
          using Cons sp(1) by simp
        have "length a2 < length a" using Cons sp(1) by simp
        with 1 have "\<exists>m\<in>set (findall (a2 @ ?S @ b)). suffix ?S m" by simp
        with f show ?thesis by auto
      next
        case False
        with up body have "\<forall>x\<in>set (a' @ h # body). \<not> terminator x"
          by (auto dest: upper_not_terminator)
        from match_sentence_eq [OF \<open>upper_AZ c\<close> this t, of b]
        have "match_sentence (c # a' @ h # body @ t # b) = Some (c # a' @ h # body @ [t], b)"
          by simp
        then have "findall (a @ ?S @ b) = (a @ ?S) # findall b"
          using Cons by simp
        moreover have "suffix ?S (a @ ?S)" by (rule suffix_appendI) simp
        ultimately show ?thesis by simp
      qed
    qed
  qed
qed

lemma re_search_append_left: "re_search r s \<Longrightarrow> re_search r (p @ s)"
proof (induction p)
  case Nil
  then show ?case by simp
next
  case (Cons c p)
  then show ?case by simp
qed

lemma re_sub_char_keeps:
  assumes "a \<notin> set S"
  shows "re_sub_char a b (x @ S @ y) = re_sub_char a b x @ S @ re_sub_char a b y"
proof -
  have "map (\<lambda>c. if c = a then b else c) S = S"
    using assms by (induction S) auto
  then show ?thesis by (simp add: re_sub_char_def)
qed

lemma dropWhile_keeps:
  "\<not> P c \<Longrightarrow> \<exists>x'. dropWhile P (x @ c # r) = x' @ c # r"
proof (induction x)
  case Nil
  then show ?case by simp
next
  case (Cons a x)
  then show ?case by (cases "P a") (auto intro: exI [of _ "a # x"])
qed

lemma strip_keeps:
  assumes "\<not> isspace c" and "\<not> isspace l"
  shows "\<exists>x' y'. strip (x @ (c # mid @ [l]) @ y) = x' @ (c # mid @ [l]) @ y'"
proof -
  obtain x' where 1: "dropWhile isspace (x @ c # (mid @ [l] @ y)) = x' @ c # (mid @ [l] @ y)"
    using dropWhile_keeps [of isspace c x "mid @ [l] @ y"] assms(1) by blast
  obtain y' where 2: "dropWhile isspace (rev y @ l # (rev mid @ c # rev x'))
      = y' @ l # (rev mid @ c # rev x')"
    using dropWhile_keeps [of isspace l "rev y" "rev mid @ c # rev x'"] assms(2) by blast
  have "strip (x @ (c # mid @ [l]) @ y) = rev (dropWhile isspace (rev (x' @ c # (mid @ [l] @ y))))"
    using 1 by (simp add: strip_def)
  also have "rev (x' @ c # (mid @ [l] @ y)) = rev y @ l # (rev mid @ c # rev x')"
    by simp
  also have "rev (dropWhile isspace \<dots>) = x' @ (c # mid @ [l]) @ rev y'"
    using 2 by simp
  finally show ?thesis by blast
qed

lemma squeeze_front:
  "c \<noteq> 32 \<Longrightarrow> \<exists>x'. squeeze (x @ c # r) = x' @ squeeze (c # r)"
proof (induction x rule: squeeze.induct)
  case 1
  then show ?case by simp
next
  case (2 v)
  then show ?case by (auto intro: exI [of _ "[v]"])
next
  case (3 a b s)
  then obtain x' where "squeeze ((b # s) @ c # r) = x' @ squeeze (c # r)" by blast
  then show ?case
    by (cases "a = 32 \<and> b = 32") (auto intro: exI [of _ "a # x'"])
qed

lemma squeeze_Cons_other: "l \<noteq> 32 \<Longrightarrow> squeeze (l # y) = l # squeeze y"
  by (cases y) simp_all

lemma squeeze_back:
  "l \<noteq> 32 \<Longrightarrow> squeeze (u @ l # y) = squeeze (u @ [l]) @ squeeze y"
proof (induction u rule: squeeze.induct)
  case 1
  then show ?case by (simp add: squeeze_Cons_other)
next
  case (2 v)
  then show ?case by (simp add: squeeze_Cons_other)
next
  case (3 a b s)
  then have "squeeze ((b # s) @ l # y) = squeeze ((b # s) @ [l]) @ squeeze y" by blast
  then show ?case by auto
qed

lemma squeeze_keeps:
  assumes "c \<noteq> 32" and "l \<noteq> 32" and "squeeze (c # mid @ [l]) = c # mid @ [l]"
  shows "\<exists>x' y'. squeeze (x @ (c # mid @ [l]) @ y) = x' @ (c # mid @ [l]) @ y'"
proof -
  obtain x' where "squeeze (x @ c # (mid @ l # y)) = x' @ squeeze (c # (mid @ l # y))"
    using squeeze_front [OF assms(1)] by blast
  moreover have "squeeze ((c # mid) @ l # y) = squeeze ((c # mid) @ [l]) @ squeeze y"
    by (rule squeeze_back [OF assms(2)])
  ultimately have "squeeze (x @ (c # mid @ [l]) @ y) = x' @ (c # mid @ [l]) @ squeeze y"
    using assms(3) by simp
  then show ?thesis by blast
qed

lemma clean_keeps:
  assumes "9 \<notin> set S" and "10 \<notin> set S" and "13 \<notin> set S"
    and "S = c # mid @ [l]" and "\<not> isspace c" and "\<not> isspace l" and "squeeze S = S"
    and "sublist S content_text"
  shows "sublist S (clean content_text)"
proof -
  from assms(8) obtain x y where "content_text = x @ S @ y"
    by (auto simp: sublist_def)
  then have "re_sub_char 9 32 (re_sub_char 13 32 (re_sub_char 10 32 content_text))
      = re_sub_char 9 32 (re_sub_char 13 32 (re_sub_char 10 32 x)) @ S
        @ re_sub_char 9 32 (re_sub_char 13 32 (re_sub_char 10 32 y))"
    using assms(1-3) by (simp add: re_sub_char_keeps)
  then obtain x1 y1 where 1:
    "re_sub_char 9 32 (re_sub_char 13 32 (re_sub_char 10 32 content_text)) = x1 @ S @ y1"
    by blast
  obtain x2 y2 where 2: "strip (x1 @ S @ y1) = x2 @ S @ y2"
    using strip_keeps [OF assms(5,6), of x1 mid y1] assms(4) by auto
  have "c \<noteq> 32" "l \<noteq> 32" using assms(5,6) by (auto simp: isspace_def)
  then obtain x3 y3 where 3: "squeeze (x2 @ S @ y2) = x3 @ S @ y3"
    using squeeze_keeps [of c l mid x2 y2] assms(4,7) by auto
  from 1 2 3 have "clean content_text = x3 @ S @ y3"
    by (simp add: clean_def)
  then show ?thesis by (auto simp: sublist_def)
qed

text \<open>A match of the English pattern needs one of its words, and cleaning the text makes
  no new word.\<close>

lemma dot_star_mono:
  "matches Dot_star k s \<Longrightarrow> (\<And>t. k t \<Longrightarrow> k' t) \<Longrightarrow> matches Dot_star k' s"
  by (induction s) auto

lemma matches_mono:
  "matches r k s \<Longrightarrow> (\<And>t. k t \<Longrightarrow> k' t) \<Longrightarrow> matches r k' s"
proof (induction r arbitrary: k k' s)
  case (Chr p)
  then show ?case by (cases s) auto
next
  case Dot_star
  then show ?case by (rule dot_star_mono)
next
  case (Alt a b)
  then show ?case by auto
next
  case (Seq a b)
  from Seq.prems(1) have "matches a (\<lambda>t. matches b k t) s" by simp
  moreover have "\<And>t. matches b k t \<Longrightarrow> matches b k' t"
    using Seq.IH(2) Seq.prems(2) by blast
  ultimately have "matches a (\<lambda>t. matches b k' t) s"
    by (rule Seq.IH(1))
  then show ?case by simp
next
  case Eps
  then show ?case by simp
qed

lemma dot_star_here: "k q \<Longrightarrow> matches Dot_star k q"
  by (cases q) simp_all

lemma dot_star_append:
  "matches Dot_star k s \<Longrightarrow> (\<And>t. k t \<Longrightarrow> k' (t @ q)) \<Longrightarrow> matches Dot_star k' (s @ q)"
proof (induction s)
  case Nil
  from Nil(2) [of "[]"] Nil(1) have "k' q" by simp
  then show ?case by (simp add: dot_star_here)
next
  case (Cons c s)
  from Cons.prems(1) have "k (c # s) \<or> (c \<noteq> 10 \<and> matches Dot_star k s)" by simp
  then show ?case
  proof
    assume "k (c # s)"
    with Cons.prems(2) [of "c # s"] show ?thesis by simp
  next
    assume "c \<noteq> 10 \<and> matches Dot_star k s"
    with Cons.IH Cons.prems(2) show ?thesis by simp
  qed
qed

lemma matches_append:
  "matches r k s \<Longrightarrow> (\<And>t. k t \<Longrightarrow> k' (t @ q)) \<Longrightarrow> matches r k' (s @ q)"
proof (induction r arbitrary: k k' s)
  case (Chr p)
  then show ?case by (cases s) auto
next
  case Dot_star
  then show ?case by (rule dot_star_append)
next
  case (Alt a b)
  then show ?case by auto
next
  case (Seq a b)
  from Seq.prems(1) have "matches a (\<lambda>t. matches b k t) s" by simp
  moreover have "\<And>t. matches b k t \<Longrightarrow> matches b k' (t @ q)"
    using Seq.IH(2) Seq.prems(2) by blast
  ultimately have "matches a (\<lambda>t. matches b k' t) (s @ q)"
    by (rule Seq.IH(1))
  then show ?case by simp
next
  case Eps
  then show ?case by simp
qed

lemma re_search_append_right: "re_search r s \<Longrightarrow> re_search r (s @ q)"
proof (induction s)
  case Nil
  then have "matches r (\<lambda>t. True) ([] @ q)"
    by (intro matches_append [of r "\<lambda>t. True" "[]"]) simp_all
  then show ?case by (cases q) simp_all
next
  case (Cons c s)
  from Cons.prems have "matches r (\<lambda>t. True) (c # s) \<or> re_search r s" by simp
  then show ?case
  proof
    assume "matches r (\<lambda>t. True) (c # s)"
    then have "matches r (\<lambda>t. True) ((c # s) @ q)"
      by (rule matches_append) simp
    then show ?thesis by simp
  next
    assume "re_search r s"
    then show ?thesis using Cons.IH by simp
  qed
qed

lemma re_search_sublist: "sublist m t \<Longrightarrow> re_search r m \<Longrightarrow> re_search r t"
  by (auto simp: sublist_def intro: re_search_append_left re_search_append_right)

lemma re_search_Seq: "re_search (Seq a b) s \<Longrightarrow> re_search a s"
proof (induction s)
  case Nil
  then have "matches a (\<lambda>t. matches b (\<lambda>t. True) t) []" by simp
  then have "matches a (\<lambda>t. True) []" by (rule matches_mono) simp
  then show ?case by simp
next
  case (Cons c s)
  from Cons.prems have "matches a (\<lambda>t. matches b (\<lambda>t. True) t) (c # s) \<or> re_search (Seq a b) s"
    by simp
  then show ?case
  proof
    assume "matches a (\<lambda>t. matches b (\<lambda>t. True) t) (c # s)"
    then have "matches a (\<lambda>t. True) (c # s)" by (rule matches_mono) simp
    then show ?thesis by simp
  next
    assume "re_search (Seq a b) s"
    then show ?thesis using Cons.IH by simp
  qed
qed


lemma wordy_re_sub_char:
  "wordy r \<Longrightarrow> matches r k (re_sub_char a 32 s) \<Longrightarrow>
     (\<And>t. k (re_sub_char a 32 t) \<Longrightarrow> k' t) \<Longrightarrow> matches r k' s"
proof (induction r arbitrary: k k' s)
  case (Chr p)
  show ?case
  proof (cases s)
    case Nil
    with Chr.prems(2) show ?thesis by (simp add: re_sub_char_def)
  next
    case (Cons c cs)
    with Chr.prems(2) have m: "ignorecase_eq p (if c = a then 32 else c)"
      and k: "k (re_sub_char a 32 cs)"
      by (simp_all add: re_sub_char_def)
    from Chr.prems(1) have "\<not> ignorecase_eq p 32" by simp
    with m have "ignorecase_eq p c" by (cases "c = a") simp_all
    moreover from k have "k' cs" by (rule Chr.prems(3))
    ultimately show ?thesis using Cons by simp
  qed
next
  case Dot_star
  then show ?case by simp
next
  case (Alt b c)
  from Alt.prems(1) have w: "wordy b" "wordy c" by simp_all
  from Alt.prems(2) have "matches b k (re_sub_char a 32 s) \<or> matches c k (re_sub_char a 32 s)"
    by simp
  then show ?case
  proof
    assume "matches b k (re_sub_char a 32 s)"
    with w(1) have "matches b k' s" using Alt.prems(3) by (rule Alt.IH(1))
    then show ?thesis by simp
  next
    assume "matches c k (re_sub_char a 32 s)"
    with w(2) have "matches c k' s" using Alt.prems(3) by (rule Alt.IH(2))
    then show ?thesis by simp
  qed
next
  case (Seq b c)
  from Seq.prems(1) have w: "wordy b" "wordy c" by simp_all
  from Seq.prems(2) have m: "matches b (\<lambda>t. matches c k t) (re_sub_char a 32 s)" by simp
  have kc: "matches c k' t" if "matches c k (re_sub_char a 32 t)" for t
    using w(2) that Seq.prems(3) by (rule Seq.IH(2))
  from w(1) m kc have "matches b (\<lambda>t. matches c k' t) s"
    by (rule Seq.IH(1))
  then show ?case by simp
next
  case Eps
  from Eps.prems(2) have "k (re_sub_char a 32 s)" by simp
  then have "k' s" by (rule Eps.prems(3))
  then show ?case by simp
qed

lemma re_search_re_sub_char:
  assumes "wordy r" and "re_search r (re_sub_char a 32 s)"
  shows "re_search r s"
  using assms(2)
proof (induction s)
  case Nil
  then have "matches r (\<lambda>t. True) (re_sub_char a 32 [])" by (simp add: re_sub_char_def)
  with assms(1) have "matches r (\<lambda>t. True) []" by (rule wordy_re_sub_char)
  then show ?case by simp
next
  case (Cons c s)
  have "re_sub_char a 32 (c # s) = (if c = a then 32 else c) # re_sub_char a 32 s"
    by (simp add: re_sub_char_def)
  with Cons.prems have "matches r (\<lambda>t. True) (re_sub_char a 32 (c # s))
      \<or> re_search r (re_sub_char a 32 s)"
    by (simp only: re_search.simps)
  then show ?case
  proof
    assume "matches r (\<lambda>t. True) (re_sub_char a 32 (c # s))"
    with assms(1) have "matches r (\<lambda>t. True) (c # s)" by (rule wordy_re_sub_char)
    then show ?thesis by simp
  next
    assume "re_search r (re_sub_char a 32 s)"
    then have "re_search r s" by (rule Cons.IH)
    then show ?thesis by simp
  qed
qed

lemma squeeze_space_first: "\<exists>r. squeeze (32 # s) = 32 # r"
proof (induction s)
  case Nil
  then show ?case by simp
next
  case (Cons b s)
  then show ?case by (cases "b = 32") simp_all
qed

lemma wordy_squeeze:
  "wordy r \<Longrightarrow> matches r k (squeeze s) \<Longrightarrow> (\<And>t. k (squeeze t) \<Longrightarrow> k' t) \<Longrightarrow>
     matches r k' s"
proof (induction r arbitrary: k k' s)
  case (Chr p)
  from Chr.prems(1) have ns: "\<not> ignorecase_eq p 32" by simp
  show ?case
  proof (cases s)
    case Nil
    with Chr.prems(2) show ?thesis by simp
  next
    case (Cons c cs)
    show ?thesis
    proof (cases "c = 32")
      case True
      obtain r where "squeeze (32 # cs) = 32 # r"
        using squeeze_space_first by blast
      with Chr.prems(2) Cons True ns show ?thesis by simp
    next
      case False
      then have sq: "squeeze (c # cs) = c # squeeze cs" by (rule squeeze_Cons_other)
      with Chr.prems(2) Cons have "ignorecase_eq p c" and "k (squeeze cs)" by simp_all
      moreover from \<open>k (squeeze cs)\<close> have "k' cs" by (rule Chr.prems(3))
      ultimately show ?thesis using Cons by simp
    qed
  qed
next
  case Dot_star
  then show ?case by simp
next
  case (Alt b c)
  from Alt.prems(1) have w: "wordy b" "wordy c" by simp_all
  from Alt.prems(2) have "matches b k (squeeze s) \<or> matches c k (squeeze s)"
    by simp
  then show ?case
  proof
    assume "matches b k (squeeze s)"
    with w(1) have "matches b k' s" using Alt.prems(3) by (rule Alt.IH(1))
    then show ?thesis by simp
  next
    assume "matches c k (squeeze s)"
    with w(2) have "matches c k' s" using Alt.prems(3) by (rule Alt.IH(2))
    then show ?thesis by simp
  qed
next
  case (Seq b c)
  from Seq.prems(1) have w: "wordy b" "wordy c" by simp_all
  from Seq.prems(2) have m: "matches b (\<lambda>t. matches c k t) (squeeze s)" by simp
  have kc: "matches c k' t" if "matches c k (squeeze t)" for t
    using w(2) that Seq.prems(3) by (rule Seq.IH(2))
  from w(1) m kc have "matches b (\<lambda>t. matches c k' t) s"
    by (rule Seq.IH(1))
  then show ?case by simp
next
  case Eps
  from Eps.prems(2) have "k (squeeze s)" by simp
  then have "k' s" by (rule Eps.prems(3))
  then show ?case by simp
qed

lemma re_search_squeeze:
  assumes "wordy r" and "re_search r (squeeze s)"
  shows "re_search r s"
  using assms(2)
proof (induction s rule: squeeze.induct)
  case 1
  then show ?case by simp
next
  case (2 a)
  then show ?case by simp
next
  case (3 a b s)
  show ?case
  proof (cases "a = 32 \<and> b = 32")
    case True
    with 3(3) have "re_search r (squeeze (b # s))" by simp
    with 3(1) True have "re_search r (b # s)" by simp
    then show ?thesis by simp
  next
    case False
    then have sq: "squeeze (a # b # s) = a # squeeze (b # s)" by simp
    with 3(3) have "matches r (\<lambda>t. True) (squeeze (a # b # s)) \<or> re_search r (squeeze (b # s))"
      by (simp only: re_search.simps)
    then show ?thesis
    proof
      assume "matches r (\<lambda>t. True) (squeeze (a # b # s))"
      with assms(1) have "matches r (\<lambda>t. True) (a # b # s)" by (rule wordy_squeeze)
      then show ?thesis by simp
    next
      assume "re_search r (squeeze (b # s))"
      with 3(2) False have "re_search r (b # s)" by simp
      then show ?thesis by simp
    qed
  qed
qed

lemma strip_sublist: "sublist (strip s) s"
proof -
  let ?d = "dropWhile isspace s"
  have 1: "s = takeWhile isspace s @ ?d" by simp
  have "rev ?d = takeWhile isspace (rev ?d) @ dropWhile isspace (rev ?d)" by simp
  then have "rev (rev ?d) = rev (takeWhile isspace (rev ?d) @ dropWhile isspace (rev ?d))"
    by (rule arg_cong)
  then have "?d = rev (dropWhile isspace (rev ?d)) @ rev (takeWhile isspace (rev ?d))"
    by (simp only: rev_rev_ident rev_append)
  then have "?d = strip s @ rev (takeWhile isspace (rev ?d))"
    by (simp only: strip_def)
  with 1 have "s = takeWhile isspace s @ strip s @ rev (takeWhile isspace (rev ?d))"
    by simp
  then show ?thesis unfolding sublist_def by blast
qed

lemma wordy_keyword: "wordy keyword"
  by (simp add: keyword_def uni_def ignorecase_eq_def)

lemma keyword_in_clean:
  assumes "re_search keyword (clean content_text)"
  shows "re_search keyword content_text"
proof -
  let ?t1 = "re_sub_char 10 32 content_text"
  let ?t2 = "re_sub_char 13 32 ?t1"
  let ?t3 = "re_sub_char 9 32 ?t2"
  from assms have "re_search keyword (squeeze (strip ?t3))"
    by (simp only: clean_def)
  with wordy_keyword have "re_search keyword (strip ?t3)"
    by (rule re_search_squeeze)
  with strip_sublist have "re_search keyword ?t3"
    by (rule re_search_sublist)
  with wordy_keyword have "re_search keyword ?t2"
    by (rule re_search_re_sub_char)
  with wordy_keyword have "re_search keyword ?t1"
    by (rule re_search_re_sub_char)
  with wordy_keyword show ?thesis
    by (rule re_search_re_sub_char)
qed

lemma en_matcher_keyword:
  "sentence_matcher ''en'' = Seq keyword (Seq Dot_star (Seq (Chr 32) (lit (uni ''day''))))"
  by (simp add: sentence_matcher_def keyword_def)

lemma no_keyword_no_match:
  assumes "\<not> re_search keyword content_text"
  shows "sentences_of (sentence_matcher ''en'') content_text = []"
proof (rule ccontr)
  assume "sentences_of (sentence_matcher ''en'') content_text \<noteq> []"
  then obtain m where "m \<in> set (sentences_of (sentence_matcher ''en'') content_text)"
    by (meson last_in_set)
  then have m: "m \<in> set (findall (clean content_text))"
    "re_search (sentence_matcher ''en'') m"
    by (simp_all add: sentences_of_def)
  from m(2) have "re_search keyword m"
    by (simp only: en_matcher_keyword re_search_Seq)
  moreover from findall_candidates [OF m(1)] have "sublist m (clean content_text)"
    by blast
  ultimately have "re_search keyword (clean content_text)"
    by (rule re_search_sublist [rotated])
  then have "re_search keyword content_text"
    by (rule keyword_in_clean)
  with assms show False by simp
qed

lemma trip_split: "trip_sentence = 84 # trip_body @ [46]"
  by code_simp

lemma trip_facts:
  "9 \<notin> set trip_sentence" "10 \<notin> set trip_sentence" "13 \<notin> set trip_sentence"
  "\<not> isspace 84" "\<not> isspace 46" "squeeze trip_sentence = trip_sentence"
  "upper_AZ 84" "terminator 46" "\<forall>x\<in>set trip_body. \<not> terminator x"
  by code_simp+

lemma trip_matches: "re_search (sentence_matcher ''en'') trip_sentence"
  by code_simp

lemma trip_found:
  assumes "sublist trip_sentence content_text"
  shows "\<exists>m\<in>set (sentences_of (sentence_matcher ''en'') content_text). suffix trip_sentence m"
proof -
  have "sublist trip_sentence (clean content_text)"
    using clean_keeps [OF trip_facts(1-3) trip_split trip_facts(4-6) assms] .
  then obtain a b where "clean content_text = a @ (84 # trip_body @ [46]) @ b"
    by (auto simp: sublist_def trip_split)
  with findall_covers [OF trip_facts(7) trip_facts(9) trip_facts(8), of a b]
  obtain m where m: "m \<in> set (findall (clean content_text))" "suffix trip_sentence m"
    by (auto simp: trip_split)
  from m(2) obtain p where "m = p @ trip_sentence" by (auto simp: suffix_def)
  with trip_matches have "re_search (sentence_matcher ''en'') m"
    by (simp add: re_search_append_left)
  with m show ?thesis by (auto simp: sentences_of_def)
qed

text \<open>
  Claim C8, as the code has it. Whenever the body text contains
  \<open>The trip took three days.\<close>, the English pipeline yields a matched sentence that
  ends with it; the candidate begins at the first capital letter after the previous
  terminator, so it can begin before the sentence. Whenever the body text has none of the
  words \<open>last\<close>, \<open>took\<close>, \<open>take\<close> of the pattern, in any letter case, as
  in \<open>The sky is blue.\<close>, the pipeline yields nothing.
\<close>

theorem trip_sentence_matched:
  "(sublist trip_sentence content_text \<longrightarrow>
      (\<exists>m\<in>set (sentences_of (sentence_matcher ''en'') content_text). suffix trip_sentence m))
   \<and> (\<not> re_search keyword content_text \<longrightarrow>
      sentences_of (sentence_matcher ''en'') content_text = [])"
  using trip_found no_keyword_no_match by blast

theorem trip_sentence_matched_witness:
  "(\<exists>m\<in>set (sentences_of (sentence_matcher ''en'') we_know_trip). suffix trip_sentence m)
   \<and> sentences_of (sentence_matcher ''en'') (uni ''The sky is blue.'') = []"
proof -
  have "we_know_trip = uni ''We know '' @ trip_sentence @ []"
    by code_simp
  then have 1: "sublist trip_sentence we_know_trip"
    unfolding sublist_def by blast
  have 2: "\<not> re_search keyword (uni ''The sky is blue.'')"
    by code_simp
  from trip_sentence_matched [of we_know_trip, THEN conjunct1, THEN mp, OF 1]
    trip_sentence_matched [of "uni ''The sky is blue.''", THEN conjunct2, THEN mp, OF 2]
  show ?thesis by fast
qed

text \<open>
  The claim as worded fails: in \<open>We know The trip took three days.\<close> the sentence is
  contained, but the match that comes out is the whole text, not the sentence.
\<close>

theorem trip_sentence_not_a_match_itself:
  "sublist trip_sentence we_know_trip
   \<and> trip_sentence \<notin> set (sentences_of (sentence_matcher ''en'') we_know_trip)"
proof -
  have "we_know_trip = uni ''We know '' @ trip_sentence @ []"
    by code_simp
  then have "sublist trip_sentence we_know_trip"
    unfolding sublist_def by blast
  moreover have "trip_sentence \<notin> set (sentences_of (sentence_matcher ''en'') we_know_trip)"
    by code_simp
  ultimately show ?thesis by simp
qed

text \<open>
  Claim C7 does not hold of the code. The candidates start only at the ASCII letters A to
  Z, so a sentence that begins with a Cyrillic capital is no candidate, although the Serbian
  pattern, with its Cyrillic alternatives, matches it: for
  \<open>Rat je trajao tri dana.\<close> in Cyrillic the pipeline finds nothing.
\<close>

theorem cyrillic_sentence_not_found:
  "re_search (sentence_matcher ''sr'') serbian_sentence
   \<and> findall (clean serbian_sentence) = []
   \<and> sentences_of (sentence_matcher ''sr'') serbian_sentence = []"
  by code_simp

subsection \<open>The size of the buffer\<close>

lemma filter_update_count:
  "w < length js \<Longrightarrow>
     length (filter P (js[w := j])) + (if P (js ! w) then 1 else 0)
       = length (filter P js) + (if P j then 1 else 0)"
proof (induction js arbitrary: w)
  case Nil
  then show ?case by simp
next
  case (Cons a js)
  then show ?case by (cases w) auto
qed

lemma dict_setitem_length: "length (dict_setitem k v d) \<le> Suc (length d)"
  by (induction d) auto

lemma dict_delitem_length: "length (dict_delitem k d) \<le> length d"
  by (induction d) auto

lemma page_download_worker_jobs_length [simp]:
  "length (page_download_jobs (page_download_worker w a s)) = length (page_download_jobs s)"
  by (simp add: page_download_worker_def Let_def split: job.splits action.splits sum.splits)

lemma step_jobs_length [simp]:
  "length (page_download_jobs (step cfg s ev)) = length (page_download_jobs s)"
  by (simp add: step_def next_locked_def kill_jobs_def parse_links_def
        split: event.splits option.splits list.splits sum.splits)

lemma run_jobs_length [simp]:
  "length (page_download_jobs (run cfg s evs)) = length (page_download_jobs s)"
  by (induction evs arbitrary: s) simp_all


lemma worker_keeps_bound:
  assumes w: "w < length (page_download_jobs s)" and b: "buffer_bounded s"
  shows "buffer_bounded (page_download_worker w a s)"
proof -
  let ?js = "page_download_jobs s"
  note upd = filter_update_count [OF w, of is_downloading]
  have le: "\<And>js. length (filter is_downloading js) \<le> length js" by simp
  show ?thesis
  proof (cases "?js ! w")
    case Idle
    show ?thesis
    proof (cases a)
      case Poll
      show ?thesis
      proof (cases "length (links_to_visit s) > 0
          \<and> length (downloaded_responses s) < DOWNLOADED_RESPONSES_TO_BUFFER")
        case True
        then have "length (downloaded_responses s) \<le> 99"
          by (simp add: DOWNLOADED_RESPONSES_TO_BUFFER_def)
        moreover have "length (filter is_downloading
            (?js[w := Downloading (last (links_to_visit s))])) \<le> length ?js"
          using le [of "?js[w := Downloading (last (links_to_visit s))]"] by simp
        ultimately show ?thesis
          using Idle Poll True
          by (simp add: page_download_worker_def buffer_bounded_def DOWNLOADED_RESPONSES_TO_BUFFER_def Let_def)
      next
        case False
        with Idle Poll b show ?thesis by (auto simp: page_download_worker_def)
      qed
    next
      case (Get x)
      with Idle b show ?thesis by (simp add: page_download_worker_def)
    next
      case Cleanup
      with Idle b show ?thesis by (simp add: page_download_worker_def)
    qed
  next
    case (Downloading u)
    show ?thesis
    proof (cases a)
      case Poll
      with Downloading b show ?thesis by (simp add: page_download_worker_def)
    next
      case (Get x)
      show ?thesis
      proof (cases x)
        case (Inr r)
        have "length (dict_setitem u r (downloaded_responses s))
            \<le> Suc (length (downloaded_responses s))"
          by (rule dict_setitem_length)
        moreover have "Suc (length (filter is_downloading (?js[w := Finishing u])))
            = length (filter is_downloading ?js)"
          using upd [of "Finishing u"] Downloading by simp
        ultimately show ?thesis
          using Downloading Get Inr b
          by (simp add: page_download_worker_def buffer_bounded_def DOWNLOADED_RESPONSES_TO_BUFFER_def)
      next
        case (Inl e)
        have "Suc (length (filter is_downloading (?js[w := Finishing u])))
            = length (filter is_downloading ?js)"
          using upd [of "Finishing u"] Downloading by simp
        moreover have "Suc (length (filter is_downloading (?js[w := Dead])))
            = length (filter is_downloading ?js)"
          using upd [of Dead] Downloading by simp
        ultimately show ?thesis
          using Downloading Get Inl b
          by (simp add: page_download_worker_def buffer_bounded_def DOWNLOADED_RESPONSES_TO_BUFFER_def)
      qed
    next
      case Cleanup
      with Downloading b show ?thesis by (simp add: page_download_worker_def)
    qed
  next
    case (Finishing u)
    show ?thesis
    proof (cases a)
      case Poll
      with Finishing b show ?thesis by (simp add: page_download_worker_def)
    next
      case (Get x)
      with Finishing b show ?thesis by (simp add: page_download_worker_def)
    next
      case Cleanup
      have "length (filter is_downloading (?js[w := Idle])) = length (filter is_downloading ?js)"
        using upd [of Idle] Finishing by simp
      moreover have "length (filter is_downloading (?js[w := Dead]))
          = length (filter is_downloading ?js)"
        using upd [of Dead] Finishing by simp
      ultimately show ?thesis
        using Finishing Cleanup b
        by (simp add: page_download_worker_def buffer_bounded_def DOWNLOADED_RESPONSES_TO_BUFFER_def)
    qed
  next
    case Dead
    with b show ?thesis
      by (cases a) (simp_all add: page_download_worker_def)
  qed
qed

lemma filter_downloading_dead [simp]:
  "filter is_downloading (map (\<lambda>p. Dead) js) = []"
  by (induction js) simp_all

lemma step_keeps_bound:
  assumes "buffer_bounded s"
  shows "buffer_bounded (step cfg s ev)"
proof (cases ev)
  case (Worker w a)
  with assms show ?thesis by (simp add: step_def worker_keeps_bound)
next
  case Next_locked
  have "length (dict_delitem (fst (hd (downloaded_responses s))) (downloaded_responses s))
      \<le> length (downloaded_responses s)"
    by (rule dict_delitem_length)
  with assms Next_locked show ?thesis
    by (cases "downloaded_responses s")
      (auto simp: step_def next_locked_def buffer_bounded_def DOWNLOADED_RESPONSES_TO_BUFFER_def kill_jobs_def
        split: option.splits)
next
  case Parse_links
  with assms show ?thesis
    by (auto simp: step_def parse_links_def buffer_bounded_def DOWNLOADED_RESPONSES_TO_BUFFER_def split: option.splits)
qed

lemma run_keeps_bound: "buffer_bounded s \<Longrightarrow> buffer_bounded (run cfg s evs)"
  by (induction evs arbitrary: s) (simp_all add: step_keeps_bound)

lemma iter_start:
  assumes "iter cfg fs s = Inr s0"
  shows "downloaded_responses s0 = []" "currently_downloading s0 = []"
    "page_download_jobs s0 = replicate (num_download_workers cfg) Idle" "soup s0 = None"
  using assms
  by (auto simp: iter_def load_progress_file_def Let_def kill_jobs_def
        split: if_splits sum.splits option.splits prod.splits)

lemma run_append: "run cfg s (a @ b) = run cfg (run cfg s a) b"
  by (simp add: run_def)

lemma dict_setitem_fresh: "k \<notin> fst ` set d \<Longrightarrow> dict_setitem k v d = d @ [(k, v)]"
  by (induction d) auto

lemma poll_pops_last:
  assumes "w < length (page_download_jobs s)"
    and "page_download_jobs s ! w = Idle"
    and "length (downloaded_responses s) < DOWNLOADED_RESPONSES_TO_BUFFER"
    and "links_to_visit s = pending @ [u]"
  shows "step cfg s (Worker w Poll) =
    s\<lparr>links_to_visit := pending,
      currently_downloading := currently_downloading s @ [u],
      visited_links := visited_links s @ [u],
      page_download_jobs := (page_download_jobs s)[w := Downloading u]\<rparr>"
  using assms by (simp add: step_def page_download_worker_def)

lemma get_stores:
  assumes "w < length (page_download_jobs s)"
    and "page_download_jobs s ! w = Downloading u"
  shows "step cfg s (Worker w (Get (Inr r))) =
    s\<lparr>downloaded_responses := dict_setitem u r (downloaded_responses s),
      page_download_jobs := (page_download_jobs s)[w := Finishing u]\<rparr>"
  using assms by (simp add: step_def page_download_worker_def)

lemma cleanup_removes:
  assumes "w < length (page_download_jobs s)"
    and "page_download_jobs s ! w = Finishing u"
    and "u \<in> set (currently_downloading s)"
  shows "step cfg s (Worker w Cleanup) =
    s\<lparr>currently_downloading := remove1 u (currently_downloading s),
      page_download_jobs := (page_download_jobs s)[w := Idle]\<rparr>"
  using assms by (simp add: step_def page_download_worker_def)

lemma one_round:
  assumes "quiet s (xs @ [u]) ds" and "length ds < 100" and "u \<notin> fst ` set ds"
  shows "quiet (run cfg s (fetch 0 r)) xs (ds @ [(u, r)])"
proof -
  define s1 where "s1 = s\<lparr>links_to_visit := xs,
      currently_downloading := currently_downloading s @ [u],
      visited_links := visited_links s @ [u],
      page_download_jobs := (page_download_jobs s)[0 := Downloading u]\<rparr>"
  define s2 where "s2 = s1\<lparr>downloaded_responses := dict_setitem u r (downloaded_responses s1),
      page_download_jobs := (page_download_jobs s1)[0 := Finishing u]\<rparr>"
  define s3 where "s3 = s2\<lparr>currently_downloading := remove1 u (currently_downloading s2),
      page_download_jobs := (page_download_jobs s2)[0 := Idle]\<rparr>"
  from assms have 1: "step cfg s (Worker 0 Poll) = s1"
    unfolding s1_def
    by (intro poll_pops_last) (simp_all add: quiet_def DOWNLOADED_RESPONSES_TO_BUFFER_def)
  from assms(1) have 2: "step cfg s1 (Worker 0 (Get (Inr r))) = s2"
    unfolding s2_def by (intro get_stores) (simp_all add: s1_def quiet_def)
  from assms(1) have 3: "step cfg s2 (Worker 0 Cleanup) = s3"
    unfolding s3_def by (intro cleanup_removes) (simp_all add: s2_def s1_def quiet_def)
  have "run cfg s (fetch 0 r) = s3"
    by (simp add: fetch_def 1 2 3)
  moreover from assms have "quiet s3 xs (ds @ [(u, r)])"
    by (simp add: s3_def s2_def s1_def quiet_def dict_setitem_fresh)
  ultimately show ?thesis by simp
qed

lemma rounds:
  assumes "quiet s (xs @ ys) ds" and "distinct ys" and "set ys \<inter> fst ` set ds = {}"
    and "length ds + length ys \<le> 100"
  shows "quiet (run cfg s (concat (replicate (length ys) (fetch 0 r)))) xs
           (ds @ map (\<lambda>u. (u, r)) (rev ys))"
  using assms
proof (induction ys arbitrary: s ds rule: rev_induct)
  case Nil
  then show ?case by simp
next
  case (snoc u ys)
  from snoc.prems have q: "quiet s ((xs @ ys) @ [u]) ds" by simp
  from snoc.prems have "length ds < 100" "u \<notin> fst ` set ds" by auto
  from one_round [OF q this, of cfg r]
  have 1: "quiet (run cfg s (fetch 0 r)) (xs @ ys) (ds @ [(u, r)])" .
  from snoc.prems have "distinct ys" "set ys \<inter> fst ` set (ds @ [(u, r)]) = {}"
    "length (ds @ [(u, r)]) + length ys \<le> 100"
    by auto
  from snoc.IH [OF 1 this]
  show ?case by (simp add: run_append)
qed


lemma page_url_inj: "page_url i = page_url j \<Longrightarrow> i = j"
  by (simp add: page_url_def)

lemma many_links_distinct: "distinct many_links"
proof -
  have "many_links = map page_url [0..<101]"
  proof -
    have "[0..<101] = [0..<2] @ [2..<2 + 99]"
      using upt_add_eq_append [of 0 2 99] by simp
    moreover have "[0..<2] = [0, Suc 0]"
      by (simp add: numeral_2_eq_2)
    ultimately show ?thesis
      by (simp add: many_links_def later_links_def del: upt_rec_numeral)
  qed
  moreover have "distinct (map page_url [0..<101])"
    by (simp add: distinct_map inj_on_def page_url_inj del: upt_rec_numeral)
  ultimately show ?thesis by simp
qed

lemma later_links_length: "length later_links = 99"
  by (simp add: later_links_def del: upt_rec_numeral)

lemma restart_quiet: "quiet restart many_links []"
proof -
  have "load_progress_file cfg_log (two_files (Pickled full_checkpoint) Absent) s
      = Inr (True, restored full_checkpoint s)" for s
    by (rule load_first [where d = "''log''"])
      (simp_all add: cfg_log_def two_files_def passed_over_def)
  then show ?thesis
    by (simp add: restart_def iter_def cfg_log_def restored_def full_checkpoint_def quiet_def
          blank_def kill_jobs_def numeral_2_eq_2)
qed

lemma iter_restart:
  "iter cfg_log (two_files (Pickled full_checkpoint) Absent) blank = Inr restart"
proof -
  have "load_progress_file cfg_log (two_files (Pickled full_checkpoint) Absent) s
      = Inr (True, restored full_checkpoint s)" for s
    by (rule load_first [where d = "''log''"])
      (simp_all add: cfg_log_def two_files_def passed_over_def)
  then show ?thesis
    by (simp add: restart_def iter_def cfg_log_def)
qed

lemma iter_cfg_one: "iter cfg_one no_files blank = Inr (cold_start cfg_one)"
  by (simp add: cold_start_def iter_def cfg_one_def)

text \<open>
  Claim C2, as the code has it. The check \<open>len(downloaded_responses) < 100\<close> is made
  when a worker pops a URL, and the response is stored later, outside the lock; so after
  \<open>__iter__\<close>, whatever the interleaving, the buffer holds at most 99 responses plus
  one for each worker. With a single worker that is the bound 100.
\<close>

theorem buffer_stays_bounded:
  assumes "iter cfg fs s = Inr s0"
  shows "length (downloaded_responses (run cfg s0 evs))
      \<le> DOWNLOADED_RESPONSES_TO_BUFFER - 1 + num_download_workers cfg
    \<and> (num_download_workers cfg \<le> 1 \<longrightarrow>
         length (downloaded_responses (run cfg s0 evs)) \<le> DOWNLOADED_RESPONSES_TO_BUFFER)"
proof -
  from iter_start [OF assms] have "buffer_bounded s0"
    by (simp add: buffer_bounded_def)
  then have "buffer_bounded (run cfg s0 evs)"
    by (rule run_keeps_bound)
  then have "length (downloaded_responses (run cfg s0 evs))
      \<le> DOWNLOADED_RESPONSES_TO_BUFFER - 1 + num_download_workers cfg"
    using iter_start(3) [OF assms] by (simp add: buffer_bounded_def)
  then show ?thesis
    by (simp add: DOWNLOADED_RESPONSES_TO_BUFFER_def)
qed

theorem buffer_stays_bounded_witness:
  "length (downloaded_responses (run cfg_log restart overshoot))
     \<le> DOWNLOADED_RESPONSES_TO_BUFFER - 1 + num_download_workers cfg_log
   \<and> length (downloaded_responses (run cfg_one (cold_start cfg_one) (fetch 0 (doc [] []))))
     \<le> DOWNLOADED_RESPONSES_TO_BUFFER"
proof -
  have "num_download_workers cfg_one \<le> 1"
    by (simp add: cfg_one_def)
  with buffer_stays_bounded [OF iter_cfg_one, of "fetch 0 (doc [] [])"]
  have "length (downloaded_responses (run cfg_one (cold_start cfg_one) (fetch 0 (doc [] []))))
     \<le> DOWNLOADED_RESPONSES_TO_BUFFER"
    by fast
  with buffer_stays_bounded [OF iter_restart, of overshoot] show ?thesis
    by fast
qed

text \<open>
  The claim as worded fails with two workers: in the run described above the buffer holds
  101 responses.
\<close>

theorem two_workers_overshoot:
  "num_download_workers cfg_log = 2
   \<and> length (downloaded_responses (run cfg_log restart overshoot)) = 101"
proof -
  let ?r = "doc [] []"
  let ?ds = "map (\<lambda>u. (u, ?r)) (rev later_links)"
  have d: "distinct (page_url 0 # page_url (Suc 0) # later_links)"
    using many_links_distinct by (simp add: many_links_def)
  have "quiet restart ([page_url 0, page_url (Suc 0)] @ later_links) []"
    using restart_quiet by (simp add: many_links_def)
  moreover have "distinct later_links" "set later_links \<inter> fst ` set [] = {}"
    "length ([] :: (url \<times> response) list) + length later_links \<le> 100"
    using d by (simp_all add: later_links_length)
  ultimately have q: "quiet (run cfg_log restart
      (concat (replicate (length later_links) (fetch 0 ?r)))) [page_url 0, page_url (Suc 0)]
      ([] @ ?ds)"
    by (rule rounds)
  define s where "s = run cfg_log restart (concat (replicate 99 (fetch 0 ?r)))"
  from q have s: "links_to_visit s = [page_url 0] @ [page_url (Suc 0)]"
    "downloaded_responses s = ?ds" "page_download_jobs s = [Idle, Idle]"
    by (simp_all add: s_def quiet_def later_links_length)
  define s1 where "s1 = step cfg_log s (Worker 0 Poll)"
  have s1: "s1 = s\<lparr>links_to_visit := [page_url 0],
      currently_downloading := currently_downloading s @ [page_url (Suc 0)],
      visited_links := visited_links s @ [page_url (Suc 0)],
      page_download_jobs := (page_download_jobs s)[0 := Downloading (page_url (Suc 0))]\<rparr>"
    unfolding s1_def
    by (rule poll_pops_last)
      (simp_all add: s later_links_length DOWNLOADED_RESPONSES_TO_BUFFER_def)
  define s2 where "s2 = step cfg_log s1 (Worker 1 Poll)"
  have s2: "s2 = s1\<lparr>links_to_visit := [],
      currently_downloading := currently_downloading s1 @ [page_url 0],
      visited_links := visited_links s1 @ [page_url 0],
      page_download_jobs := (page_download_jobs s1)[1 := Downloading (page_url 0)]\<rparr>"
    unfolding s2_def
    by (rule poll_pops_last)
      (simp_all add: s1 s later_links_length DOWNLOADED_RESPONSES_TO_BUFFER_def)
  define s3 where "s3 = step cfg_log s2 (Worker 0 (Get (Inr ?r)))"
  have s3: "s3 = s2\<lparr>downloaded_responses :=
        dict_setitem (page_url (Suc 0)) ?r (downloaded_responses s2),
      page_download_jobs := (page_download_jobs s2)[0 := Finishing (page_url (Suc 0))]\<rparr>"
    unfolding s3_def by (rule get_stores) (simp_all add: s2 s1 s)
  define s4 where "s4 = step cfg_log s3 (Worker 1 (Get (Inr ?r)))"
  have s4: "s4 = s3\<lparr>downloaded_responses :=
        dict_setitem (page_url 0) ?r (downloaded_responses s3),
      page_download_jobs := (page_download_jobs s3)[1 := Finishing (page_url 0)]\<rparr>"
    unfolding s4_def by (rule get_stores) (simp_all add: s3 s2 s1 s)
  have "run cfg_log restart overshoot = s4"
    by (simp add: overshoot_def run_append s_def [symmetric] s1_def s2_def s3_def s4_def)
  moreover have "downloaded_responses s4 = ?ds @ [(page_url (Suc 0), ?r), (page_url 0, ?r)]"
    using d by (simp add: s4 s3 s2 s1 s dict_setitem_fresh image_iff)
  ultimately show ?thesis
    by (simp add: later_links_length cfg_log_def)
qed

subsection \<open>A download that fails\<close>

lemma count_list_remove1:
  "count_list (remove1 u xs) v = count_list xs v - (if u = v \<and> u \<in> set xs then 1 else 0)"
  by (induction xs) auto

lemma filter_active_dead [simp]:
  "filter (\<lambda>j. active_url j = Some u) (map (\<lambda>p. Dead) js) = []"
  by (induction js) simp_all

lemma worker_keeps_in_flight:
  assumes w: "w < length (page_download_jobs s)" and ok: "in_flight_ok s"
  shows "in_flight_ok (page_download_worker w a s)"
  unfolding in_flight_ok_def
proof
  fix v
  let ?js = "page_download_jobs s"
  let ?P = "\<lambda>j. active_url j = Some v"
  note upd = filter_update_count [OF w, of ?P]
  from ok have le: "length (filter ?P ?js) \<le> count_list (currently_downloading s) v"
    by (simp add: in_flight_ok_def)
  show "length (filter ?P (page_download_jobs (page_download_worker w a s)))
      \<le> count_list (currently_downloading (page_download_worker w a s)) v"
  proof (cases "?js ! w")
    case Idle
    show ?thesis
    proof (cases a)
      case Poll
      show ?thesis
        using upd [of "Downloading (last (links_to_visit s))"] Idle Poll le
        by (auto simp: page_download_worker_def Let_def)
    next
      case (Get x)
      with Idle le show ?thesis by (simp add: page_download_worker_def)
    next
      case Cleanup
      with Idle le show ?thesis by (simp add: page_download_worker_def)
    qed
  next
    case (Downloading u)
    show ?thesis
    proof (cases a)
      case Poll
      with Downloading le show ?thesis by (simp add: page_download_worker_def)
    next
      case (Get x)
      show ?thesis
        using upd [of "Finishing u"] upd [of Dead] Downloading Get le
        by (cases x) (auto simp: page_download_worker_def split: if_splits)
    next
      case Cleanup
      with Downloading le show ?thesis by (simp add: page_download_worker_def)
    qed
  next
    case (Finishing u)
    show ?thesis
    proof (cases a)
      case Poll
      with Finishing le show ?thesis by (simp add: page_download_worker_def)
    next
      case (Get x)
      with Finishing le show ?thesis by (simp add: page_download_worker_def)
    next
      case Cleanup
      show ?thesis
        using upd [of Idle] upd [of Dead] Finishing Cleanup le
        by (auto simp: page_download_worker_def count_list_remove1 split: if_splits)
    qed
  next
    case Dead
    with le show ?thesis
      by (cases a) (simp_all add: page_download_worker_def)
  qed
qed

lemma step_keeps_in_flight:
  assumes "in_flight_ok s"
  shows "in_flight_ok (step cfg s ev)"
proof (cases ev)
  case (Worker w a)
  with assms show ?thesis by (simp add: step_def worker_keeps_in_flight)
next
  case Next_locked
  with assms show ?thesis
    by (cases "downloaded_responses s")
      (auto simp: step_def next_locked_def in_flight_ok_def kill_jobs_def
        split: option.splits)
next
  case Parse_links
  with assms show ?thesis
    by (auto simp: step_def parse_links_def in_flight_ok_def split: option.splits)
qed


lemma worker_visited_grows:
  "set (visited_links s) \<subseteq> set (visited_links (page_download_worker w a s))"
  by (auto simp: page_download_worker_def Let_def split: job.splits action.splits sum.splits)

lemma step_visited_grows: "set (visited_links s) \<subseteq> set (visited_links (step cfg s ev))"
proof (cases ev)
  case (Worker w a)
  then show ?thesis using worker_visited_grows [of s w a] by (simp add: step_def)
next
  case Next_locked
  then show ?thesis
    by (cases "downloaded_responses s")
      (auto simp: step_def next_locked_def split: option.splits)
next
  case Parse_links
  then show ?thesis
    by (auto simp: step_def parse_links_def split: option.splits)
qed

lemma run_visited_grows: "set (visited_links s) \<subseteq> set (visited_links (run cfg s evs))"
proof (induction evs arbitrary: s)
  case Nil
  then show ?case by simp
next
  case (Cons e evs)
  have "set (visited_links s) \<subseteq> set (visited_links (step cfg s e))"
    by (rule step_visited_grows)
  also have "\<dots> \<subseteq> set (visited_links (run cfg (step cfg s e) evs))"
    by (rule Cons.IH)
  finally show ?case by simp
qed

lemma count_list_butlast: "count_list (butlast xs) u \<le> count_list xs u"
  by (induction xs) auto

lemma count_list_filter_out: "\<not> P u \<Longrightarrow> count_list (filter P xs) u = 0"
  by (induction xs) auto

lemma worker_never_adds:
  "count_list (links_to_visit (page_download_worker w a s)) u \<le> count_list (links_to_visit s) u"
  by (auto simp: page_download_worker_def Let_def count_list_butlast
        split: job.splits action.splits sum.splits)

lemma step_never_adds_visited:
  assumes "u \<in> set (visited_links s)"
  shows "count_list (links_to_visit (step cfg s ev)) u \<le> count_list (links_to_visit s) u"
proof (cases ev)
  case (Worker w a)
  then show ?thesis using worker_never_adds [of w a s u] by (simp add: step_def)
next
  case Next_locked
  then show ?thesis
    by (cases "downloaded_responses s")
      (auto simp: step_def next_locked_def split: option.splits)
next
  case Parse_links
  with assms show ?thesis
    by (auto simp: step_def parse_links_def count_list_filter_out split: option.splits)
qed

lemma worker_other_index:
  "w' \<noteq> w \<Longrightarrow>
     page_download_jobs (page_download_worker w' a s) ! w = page_download_jobs s ! w"
  by (auto simp: page_download_worker_def Let_def split: job.splits action.splits sum.splits)

lemma holder_in_flight:
  assumes "in_flight_ok s" and "w < length (page_download_jobs s)"
    and "active_url (page_download_jobs s ! w) = Some u"
  shows "u \<in> set (currently_downloading s)"
proof -
  from assms(2,3) have "page_download_jobs s ! w
      \<in> set (filter (\<lambda>j. active_url j = Some u) (page_download_jobs s))"
    by simp
  then have "0 < length (filter (\<lambda>j. active_url j = Some u) (page_download_jobs s))"
    by (metis length_pos_if_in_set)
  with assms(1) have "0 < count_list (currently_downloading s) u"
    unfolding in_flight_ok_def by (metis less_le_trans)
  then show ?thesis by (metis count_list_0_iff less_numeral_extra(3))
qed

lemma other_step_keeps_job:
  assumes "in_flight_ok s" and "w < length (page_download_jobs s)"
    and "active_url (page_download_jobs s ! w) = Some u" and "\<not> by_worker w ev"
  shows "page_download_jobs (step cfg s ev) ! w = page_download_jobs s ! w"
proof (cases ev)
  case (Worker w' a)
  with assms(4) show ?thesis by (simp add: step_def worker_other_index)
next
  case Next_locked
  from holder_in_flight [OF assms(1-3)] have "currently_downloading s \<noteq> []" by auto
  with Next_locked show ?thesis
    by (cases "downloaded_responses s")
      (auto simp: step_def next_locked_def split: option.splits)
next
  case Parse_links
  then show ?thesis
    by (auto simp: step_def parse_links_def split: option.splits)
qed

lemma other_run_keeps_job:
  assumes "in_flight_ok s" and "w < length (page_download_jobs s)"
    and "active_url (page_download_jobs s ! w) = Some u" and "\<forall>ev\<in>set evs. \<not> by_worker w ev"
  shows "page_download_jobs (run cfg s evs) ! w = page_download_jobs s ! w
    \<and> in_flight_ok (run cfg s evs)"
  using assms
proof (induction evs arbitrary: s)
  case Nil
  then show ?case by simp
next
  case (Cons e evs)
  from Cons.prems have k: "page_download_jobs (step cfg s e) ! w = page_download_jobs s ! w"
    by (intro other_step_keeps_job) simp_all
  have "in_flight_ok (step cfg s e)"
    using Cons.prems(1) by (rule step_keeps_in_flight)
  moreover have "w < length (page_download_jobs (step cfg s e))"
    using Cons.prems(2) by simp
  moreover have "active_url (page_download_jobs (step cfg s e) ! w) = Some u"
    using k Cons.prems(3) by simp
  moreover have "\<forall>ev\<in>set evs. \<not> by_worker w ev"
    using Cons.prems(4) by simp
  ultimately have "page_download_jobs (run cfg (step cfg s e) evs) ! w
      = page_download_jobs (step cfg s e) ! w \<and> in_flight_ok (run cfg (step cfg s e) evs)"
    by (rule Cons.IH)
  with k show ?case by simp
qed

lemma run_keeps_in_flight: "in_flight_ok s \<Longrightarrow> in_flight_ok (run cfg s evs)"
  by (induction evs arbitrary: s) (simp_all add: step_keeps_in_flight)

lemma in_set_update: "x \<in> set (js[w := j]) \<Longrightarrow> x = j \<or> x \<in> set js"
  using set_update_subset_insert [of js w j] by auto

lemma worker_keeps_holders:
  assumes w: "w < length (page_download_jobs s)" and h: "holders_visited s"
  shows "holders_visited (page_download_worker w a s)"
proof -
  from w have mem: "page_download_jobs s ! w \<in> set (page_download_jobs s)" by simp
  show ?thesis
  proof (cases "page_download_jobs s ! w")
    case Idle
    with h show ?thesis
      by (cases a)
        (auto simp: page_download_worker_def holders_visited_def Let_def dest!: in_set_update)
  next
    case (Downloading u)
    with h mem have "u \<in> set (visited_links s)"
      by (auto simp: holders_visited_def)
    with h Downloading show ?thesis
      by (cases a)
        (auto simp: page_download_worker_def holders_visited_def
          dest!: in_set_update split: sum.splits)
  next
    case (Finishing u)
    with h show ?thesis
      by (cases a)
        (auto simp: page_download_worker_def holders_visited_def dest!: in_set_update)
  next
    case Dead
    with h show ?thesis
      by (cases a) (simp_all add: page_download_worker_def)
  qed
qed

lemma step_keeps_holders:
  assumes "holders_visited s"
  shows "holders_visited (step cfg s ev)"
proof (cases ev)
  case (Worker w a)
  with assms show ?thesis by (simp add: step_def worker_keeps_holders)
next
  case Next_locked
  with assms show ?thesis
    by (cases "downloaded_responses s")
      (auto simp: step_def next_locked_def holders_visited_def kill_jobs_def
        split: option.splits)
next
  case Parse_links
  with assms show ?thesis
    by (auto simp: step_def parse_links_def holders_visited_def split: option.splits)
qed

lemma run_keeps_holders: "holders_visited s \<Longrightarrow> holders_visited (run cfg s evs)"
  by (induction evs arbitrary: s) (simp_all add: step_keeps_holders)

lemma iter_invariants:
  assumes "iter cfg fs s = Inr s0"
  shows "in_flight_ok s0" "holders_visited s0"
  using iter_start(3) [OF assms]
  by (simp_all add: in_flight_ok_def holders_visited_def)

lemma connection_error_step:
  assumes "w < length (page_download_jobs s)"
    and "page_download_jobs s ! w = Downloading u"
  shows "step cfg s (connection_error w) =
    s\<lparr>console := console s @ [Error_getting u],
      page_download_jobs := (page_download_jobs s)[w := Finishing u]\<rparr>"
  using assms by (simp add: connection_error_def step_def page_download_worker_def)


lemma iter_cfg_en: "iter cfg_en no_files blank = Inr (cold_start cfg_en)"
  by (simp add: cold_start_def iter_def cfg_en_def)

text \<open>
  What holds for the one failure that is caught. Take any state reached after
  \<open>__iter__\<close> in which worker \<open>w\<close> is downloading \<open>url\<close>, and let
  \<open>requests.get\<close> raise \<open>ConnectionError\<close>. The failure is printed; this
  download stores nothing in the buffer and adds nothing to the pending list. Whatever the
  other processes do meanwhile, the URL is still in \<open>currently_downloading\<close> when the
  worker comes to remove it, one occurrence is removed, and the worker is back at the head
  of its loop. From the failure on, no step adds the URL to the pending list again.
\<close>

theorem failed_fetch_is_dropped:
  assumes "iter cfg fs s_prev = Inr s0"
    and "s = run cfg s0 evs"
    and "w < length (page_download_jobs s)"
    and "page_download_jobs s ! w = Downloading url"
    and "\<forall>ev\<in>set others. \<not> by_worker w ev"
  shows "console (step cfg s (connection_error w)) = console s @ [Error_getting url]
    \<and> downloaded_responses (step cfg s (connection_error w)) = downloaded_responses s
    \<and> links_to_visit (step cfg s (connection_error w)) = links_to_visit s
    \<and> url \<in> set (currently_downloading (run cfg (step cfg s (connection_error w)) others))
    \<and> page_download_jobs
         (step cfg (run cfg (step cfg s (connection_error w)) others) (Worker w Cleanup)) ! w
        = Idle
    \<and> currently_downloading
         (step cfg (run cfg (step cfg s (connection_error w)) others) (Worker w Cleanup))
        = remove1 url (currently_downloading (run cfg (step cfg s (connection_error w)) others))
    \<and> (\<forall>later ev.
          count_list (links_to_visit (run cfg (step cfg s (connection_error w)) (later @ [ev]))) url
            \<le> count_list (links_to_visit (run cfg (step cfg s (connection_error w)) later)) url)"
proof -
  let ?s1 = "step cfg s (connection_error w)"
  let ?t = "run cfg ?s1 others"
  from assms(1,2) have inv: "in_flight_ok s" "holders_visited s"
    by (simp_all add: iter_invariants run_keeps_in_flight run_keeps_holders)
  have s1: "?s1 = s\<lparr>console := console s @ [Error_getting url],
      page_download_jobs := (page_download_jobs s)[w := Finishing url]\<rparr>"
    using assms(3,4) by (rule connection_error_step)
  have a: "console ?s1 = console s @ [Error_getting url]"
    "downloaded_responses ?s1 = downloaded_responses s"
    "links_to_visit ?s1 = links_to_visit s"
    by (simp_all add: s1)
  have ok1: "in_flight_ok ?s1"
    using inv(1) by (rule step_keeps_in_flight)
  have w1: "w < length (page_download_jobs ?s1)"
    using assms(3) by simp
  have j1: "page_download_jobs ?s1 ! w = Finishing url"
    using assms(3) by (simp add: s1)
  then have act: "active_url (page_download_jobs ?s1 ! w) = Some url"
    by simp
  from other_run_keeps_job [OF ok1 w1 act assms(5), of cfg]
  have jt: "page_download_jobs ?t ! w = Finishing url" and okt: "in_flight_ok ?t"
    using j1 by simp_all
  have wt: "w < length (page_download_jobs ?t)"
    using assms(3) by simp
  have b: "url \<in> set (currently_downloading ?t)"
    using okt wt by (rule holder_in_flight) (simp add: jt)
  have c: "step cfg ?t (Worker w Cleanup) =
      ?t\<lparr>currently_downloading := remove1 url (currently_downloading ?t),
        page_download_jobs := (page_download_jobs ?t)[w := Idle]\<rparr>"
    using wt jt b by (rule cleanup_removes)
  have d: "page_download_jobs (step cfg ?t (Worker w Cleanup)) ! w = Idle"
    "currently_downloading (step cfg ?t (Worker w Cleanup))
       = remove1 url (currently_downloading ?t)"
    using wt by (simp_all add: c)
  have v: "url \<in> set (visited_links s)"
    using inv(2) assms(3,4) nth_mem [of w "page_download_jobs s"]
    by (auto simp: holders_visited_def)
  have e: "count_list (links_to_visit (run cfg ?s1 (later @ [ev]))) url
      \<le> count_list (links_to_visit (run cfg ?s1 later)) url" for later ev
  proof -
    have "url \<in> set (visited_links ?s1)"
      using v step_visited_grows [of s cfg "connection_error w"] by auto
    then have "url \<in> set (visited_links (run cfg ?s1 later))"
      using run_visited_grows [of ?s1 cfg later] by auto
    then show ?thesis
      by (simp add: run_append step_never_adds_visited)
  qed
  from a b d e show ?thesis by simp
qed

theorem failed_fetch_is_dropped_witness:
  "console (step cfg_en (run cfg_en (cold_start cfg_en) [Worker 0 Poll]) (connection_error 0))
     = console (run cfg_en (cold_start cfg_en) [Worker 0 Poll])
       @ [Error_getting ''https://en.wikipedia.org'']
   \<and> page_download_jobs
        (step cfg_en
          (run cfg_en
            (step cfg_en (run cfg_en (cold_start cfg_en) [Worker 0 Poll]) (connection_error 0))
            [Worker 1 Poll, Next_locked])
          (Worker 0 Cleanup)) ! 0 = Idle"
proof -
  have 1: "run cfg_en (cold_start cfg_en) [Worker 0 Poll]
      = run cfg_en (cold_start cfg_en) [Worker 0 Poll]"
    by simp
  have 2: "0 < length (page_download_jobs (run cfg_en (cold_start cfg_en) [Worker 0 Poll]))"
    by (simp add: cold_start_cfg_en blank_def)
  have 3: "page_download_jobs (run cfg_en (cold_start cfg_en) [Worker 0 Poll]) ! 0
      = Downloading ''https://en.wikipedia.org''"
    by code_simp
  have 4: "\<forall>ev\<in>set [Worker 1 Poll, Next_locked]. \<not> by_worker 0 ev"
    by simp
  from failed_fetch_is_dropped [OF iter_cfg_en 1 2 3 4] show ?thesis
    by fast
qed

text \<open>
  Claim C4 does not hold of the code. Only \<open>ConnectionError\<close> is caught. When the
  connection breaks while the body is read, \<open>requests.get\<close> raises
  \<open>ChunkedEncodingError\<close>: the worker ends, nothing is printed, the locked
  \<open>remove\<close> is never reached and the URL stays in \<open>currently_downloading\<close>, so
  that \<open>__next__\<close> answers \<open>(None, None, None)\<close> from then on and cannot stop.
\<close>

theorem other_failure_ends_worker:
  "page_download_jobs (run cfg_en (cold_start cfg_en) cut_off_download) ! 0 = Dead
   \<and> currently_downloading (run cfg_en (cold_start cfg_en) cut_off_download)
       = [''https://en.wikipedia.org'']
   \<and> console (run cfg_en (cold_start cfg_en) cut_off_download) = []
   \<and> next cfg_en (run cfg_en (cold_start cfg_en) cut_off_download)
       = (Inr NotReady, run cfg_en (cold_start cfg_en) cut_off_download)"
  by code_simp

end
